theory Spec2Isabelle
  imports Complex_Main
begin

section \<open>Values\<close>

text \<open>
  The tensors of \<^verbatim>\<open>quasiStableColoring.py\<close> hold \<^verbatim>\<open>torch.float32\<close> values. The
  embedding keeps the special values the code writes (\<^verbatim>\<open>torch.inf\<close> fills
  \<^verbatim>\<open>lower_base\<close>) and takes every finite value as an exact rational: sums, differences
  and means are computed without rounding and without overflow. This is an idealisation:
  the float32 sums and means of the code round, and they overflow to \<^verbatim>\<open>inf\<close> on weights
  near the largest float32. Node identifiers (\<^verbatim>\<open>int32\<close>) and sizes are natural numbers.
\<close>

datatype float32 = Fin rat | PInf | NInf | NaN

fun fl_less :: "float32 \<Rightarrow> float32 \<Rightarrow> bool" where
  "fl_less NaN _ = False"
| "fl_less _ NaN = False"
| "fl_less (Fin a) (Fin b) = (a < b)"
| "fl_less _ NInf = False"
| "fl_less NInf _ = True"
| "fl_less PInf _ = False"
| "fl_less _ PInf = True"

definition fl_le :: "float32 \<Rightarrow> float32 \<Rightarrow> bool" where
  "fl_le a b = (fl_less a b \<or> (a = b \<and> a \<noteq> NaN))"

definition fl_ge :: "float32 \<Rightarrow> float32 \<Rightarrow> bool" where
  "fl_ge a b = fl_le b a"

fun fl_sub :: "float32 \<Rightarrow> float32 \<Rightarrow> float32" where
  "fl_sub NaN _ = NaN"
| "fl_sub _ NaN = NaN"
| "fl_sub (Fin a) (Fin b) = Fin (a - b)"
| "fl_sub PInf PInf = NaN"
| "fl_sub NInf NInf = NaN"
| "fl_sub PInf _ = PInf"
| "fl_sub NInf _ = NInf"
| "fl_sub _ PInf = NInf"
| "fl_sub _ NInf = PInf"

text \<open>Python's builtin \<^verbatim>\<open>max(a, b)\<close> and \<^verbatim>\<open>min(a, b)\<close>: the first argument stays
  unless the second compares strictly beyond it.\<close>

definition py_max :: "float32 \<Rightarrow> float32 \<Rightarrow> float32" where
  "py_max a b = (if fl_less a b then b else a)"

definition py_min :: "float32 \<Rightarrow> float32 \<Rightarrow> float32" where
  "py_min a b = (if fl_less b a then b else a)"

datatype error = AssertionError | TensorError | ValueError | OverflowError

text \<open>\<^verbatim>\<open>TensorError\<close> stands for the exceptions of the tensor library (an index out of
  range, a shape mismatch, a reduction over an empty tensor, a negative dimension).\<close>

datatype 's outcome = Ok 's | Raised error 's

text \<open>A call that raises leaves the objects it can reach in some state; \<open>Raised e s\<close>
  carries that state.\<close>

section \<open>Reductions over tensors\<close>

fun tensor_max :: "rat list \<Rightarrow> rat" where
  "tensor_max [x] = x"
| "tensor_max (x # xs) = max x (tensor_max xs)"

fun tensor_min :: "rat list \<Rightarrow> rat" where
  "tensor_min [x] = x"
| "tensor_min (x # xs) = min x (tensor_min xs)"

text \<open>\<^verbatim>\<open>tensor.mean()\<close>: the mean of an empty tensor is \<^verbatim>\<open>nan\<close>. The mean of the model is
  the exact one; the float32 mean of the code is its rounding, which can reach the
  greatest of the values.\<close>

definition mean :: "rat list \<Rightarrow> float32" where
  "mean xs = (if xs = [] then NaN else Fin (sum_list xs / of_nat (length xs)))"

text \<open>\<^verbatim>\<open>torch.argmax\<close> over a flattened tensor: the index of the first maximal value,
  where \<^verbatim>\<open>nan\<close> counts as larger than every number.\<close>

definition greater_or_nan :: "float32 \<Rightarrow> float32 \<Rightarrow> bool" where
  "greater_or_nan a b = (b \<noteq> NaN \<and> (a = NaN \<or> fl_less b a))"

fun argmax_from :: "float32 list \<Rightarrow> nat \<Rightarrow> nat \<Rightarrow> float32 \<Rightarrow> nat" where
  "argmax_from [] k bi bv = bi"
| "argmax_from (x # xs) k bi bv =
     (if greater_or_nan x bv then argmax_from xs (Suc k) k x
      else argmax_from xs (Suc k) bi bv)"

fun argmax :: "float32 list \<Rightarrow> nat" where
  "argmax (x # xs) = argmax_from xs 1 0 x"

section \<open>ColorStatus\<close>

type_synonym matrix = "float32 list list"

record ColorStatus =
  cs_v :: nat
  cs_n :: nat
  neighbor :: "rat list list"
  upper_base :: matrix
  lower_base :: matrix
  errors_base :: matrix

text \<open>\<^verbatim>\<open>torch.zeros((n, n))\<close> and \<^verbatim>\<open>torch.full((n, n), fill_value)\<close>.\<close>

definition full :: "nat \<Rightarrow> float32 \<Rightarrow> matrix" where
  "full n x = replicate n (replicate n x)"

text \<open>\<^verbatim>\<open>ColorStatus.__init__\<close>. The field \<^verbatim>\<open>neighbor\<close> starts as \<^verbatim>\<open>None\<close> and is
  assigned by \<^verbatim>\<open>init_status\<close> before anything reads it; the empty matrix stands for
  \<^verbatim>\<open>None\<close>.\<close>

definition ColorStatus_init :: "nat \<Rightarrow> nat \<Rightarrow> ColorStatus" where
  "ColorStatus_init v n =
     \<lparr>cs_v = v, cs_n = n, neighbor = [],
      upper_base = full n (Fin 0), lower_base = full n PInf, errors_base = full n (Fin 0)\<rparr>"

text \<open>\<^verbatim>\<open>new[:m, :m] = old\<close> for an \<open>m \<times> m\<close> matrix \<open>old\<close> and a larger \<open>new\<close>.\<close>

definition paste :: "nat \<Rightarrow> matrix \<Rightarrow> matrix \<Rightarrow> matrix" where
  "paste m old new =
     map (\<lambda>(i, row). if i < m then old ! i @ drop m row else row) (enumerate 0 new)"

definition resize :: "ColorStatus \<Rightarrow> nat \<Rightarrow> error + ColorStatus" where
  "resize cs n =
     (let m = cs_n cs in
      if n < m then Inl TensorError
      else Inr (cs\<lparr>cs_n := n,
                  upper_base := paste m (upper_base cs) (full n (Fin 0)),
                  lower_base := paste m (lower_base cs) (full n PInf),
                  errors_base := paste m (errors_base cs) (full n (Fin 0))\<rparr>))"

text \<open>Writes through the view \<^verbatim>\<open>base[:m, :m]\<close>: a row \<^verbatim>\<open>view[i, :] = vec\<close>, a cell
  \<^verbatim>\<open>view[i, j] = x\<close>, and \<^verbatim>\<open>errors[:, :] = upper_deg - lower_deg\<close>.\<close>

definition set_row :: "nat \<Rightarrow> nat \<Rightarrow> float32 list \<Rightarrow> matrix \<Rightarrow> matrix" where
  "set_row m i vec B = B[i := vec @ drop m (B ! i)]"

definition set_cell :: "nat \<Rightarrow> nat \<Rightarrow> float32 \<Rightarrow> matrix \<Rightarrow> matrix" where
  "set_cell i j x B = B[i := (B ! i)[j := x]]"

definition refresh_errors :: "nat \<Rightarrow> matrix \<Rightarrow> matrix \<Rightarrow> matrix \<Rightarrow> matrix" where
  "refresh_errors m U L E =
     map (\<lambda>(i, row).
            if i < m then map2 fl_sub (take m (U ! i)) (take m (L ! i)) @ drop m row
            else row)
         (enumerate 0 E)"

text \<open>The active block \<^verbatim>\<open>base[:m, :m]\<close>.\<close>

definition block :: "nat \<Rightarrow> matrix \<Rightarrow> matrix" where
  "block m B = map (take m) (take m B)"

section \<open>QuasiStableColoring\<close>

text \<open>The graph \<^verbatim>\<open>G\<close>: \<^verbatim>\<open>num_nodes\<close> and the sparse matrix \<^verbatim>\<open>adj_t\<close>, an entry
  that is not stored being 0.\<close>

record Graph =
  num_nodes :: nat
  adj_t :: "nat \<Rightarrow> nat \<Rightarrow> rat"

type_synonym weights = "nat \<Rightarrow> nat \<Rightarrow> rat"

definition transpose_w :: "weights \<Rightarrow> weights" where
  "transpose_w W = (\<lambda>u x. W x u)"

type_synonym partition = "nat list list"

text \<open>\<^verbatim>\<open>QuasiStableColoring.__init__\<close>: one color \<^verbatim>\<open>arange(num_nodes)\<close>.\<close>

definition initial_p :: "nat \<Rightarrow> partition" where
  "initial_p v = [[0..<v]]"

definition BASE_MATRIX_SIZE :: nat where
  "BASE_MATRIX_SIZE = 128"

text \<open>What the tensor library needs of a partition to index with it: every color has a
  member (a reduction over no rows raises) and every member is a row index.\<close>

definition indexable :: "nat \<Rightarrow> partition \<Rightarrow> bool" where
  "indexable v p = list_all (\<lambda>X. X \<noteq> [] \<and> list_all (\<lambda>x. x < v) X) p"

text \<open>\<^verbatim>\<open>split_color\<close> reads \<^verbatim>\<open>color_status.neighbor\<close> and writes \<^verbatim>\<open>self.p\<close>; the
  assertions come before the two writes.\<close>

definition split_color ::
  "partition \<Rightarrow> ColorStatus \<Rightarrow> nat \<Rightarrow> nat \<Rightarrow> float32 \<Rightarrow> partition outcome" where
  "split_color p color_status witness_i witness_j threshold =
     (if \<not> (witness_i < length p \<and>
             list_all (\<lambda>x. x < length (neighbor color_status) \<and>
                           witness_j < length (neighbor color_status ! x)) (p ! witness_i))
      then Raised TensorError p
      else
        let arr = p ! witness_i;
            split_1 = (\<lambda>x. fl_less threshold (Fin (neighbor color_status ! x ! witness_j)));
            retain = filter (\<lambda>x. \<not> split_1 x) arr;
            eject = filter split_1 arr
        in if length retain = 0 then Raised AssertionError p
           else if length eject = 0 then Raised AssertionError p
           else Ok (p[witness_i := retain] @ [eject]))"

text \<open>\<^verbatim>\<open>partition_matrix\<close>, dense: entry \<open>(x, c)\<close> adds 1.0 for every occurrence of
  node \<open>x\<close> in color \<open>c\<close>.\<close>

definition partition_matrix :: "nat \<Rightarrow> partition \<Rightarrow> rat list list" where
  "partition_matrix v p = map (\<lambda>x. map (\<lambda>X. of_nat (count_list X x)) p) [0..<v]"

text \<open>\<^verbatim>\<open>torch.mm(weights, P)\<close> for the \<open>v \<times> v\<close> matrix \<open>weights\<close> and a \<open>v \<times> m\<close> matrix,
  with exact sums.\<close>

definition mm :: "nat \<Rightarrow> weights \<Rightarrow> nat \<Rightarrow> rat list list \<Rightarrow> rat list list" where
  "mm v W m P =
     map (\<lambda>u. map (\<lambda>c. sum_list (map (\<lambda>x. W u x * P ! x ! c) [0..<v])) [0..<m]) [0..<v]"

text \<open>\<^verbatim>\<open>torch.max(neighbor[X, :], dim=0)[0]\<close> and \<^verbatim>\<open>torch.min(neighbor[X, :], dim=0)[0]\<close>
  over the \<open>m\<close> columns.\<close>

definition col_max :: "rat list list \<Rightarrow> nat list \<Rightarrow> nat \<Rightarrow> float32" where
  "col_max nb X j = Fin (tensor_max (map (\<lambda>x. nb ! x ! j) X))"

definition col_min :: "rat list list \<Rightarrow> nat list \<Rightarrow> nat \<Rightarrow> float32" where
  "col_min nb X j = Fin (tensor_min (map (\<lambda>x. nb ! x ! j) X))"

text \<open>\<^verbatim>\<open>init_status\<close>. The tensor library raises when a color is empty or holds a node
  that is no row index, when \<^verbatim>\<open>partition_matrix\<close> has more entries than nodes, and when
  the buffers have fewer than \<open>m\<close> rows; otherwise every index is in range. The loop of
  lines 101 to 103 writes row \<open>i\<close> of \<^verbatim>\<open>upper_deg\<close> and of \<^verbatim>\<open>lower_deg\<close>; the two
  buffers do not depend on each other, so the model folds over the colors once for
  each.\<close>

definition init_status ::
  "nat \<Rightarrow> partition \<Rightarrow> ColorStatus \<Rightarrow> weights \<Rightarrow> error + ColorStatus" where
  "init_status v p color_status W =
     (let m = length p in
      if \<not> (indexable v p \<and> length (concat p) \<le> v \<and> m \<le> cs_n color_status)
      then Inl TensorError
      else
        let nb = mm v W m (partition_matrix v p);
            upper_deg = fold (\<lambda>(i, X). set_row m i (map (col_max nb X) [0..<m]))
                          (enumerate 0 p) (upper_base color_status);
            lower_deg = fold (\<lambda>(i, X). set_row m i (map (col_min nb X) [0..<m]))
                          (enumerate 0 p) (lower_base color_status)
        in Inr (color_status\<lparr>neighbor := nb, upper_base := upper_deg, lower_base := lower_deg,
                  errors_base := refresh_errors m upper_deg lower_deg (errors_base color_status)\<rparr>))"

text \<open>\<^verbatim>\<open>weights[:, nodes].sum(axis=1)\<close>, row \<open>u\<close>, as an exact sum.\<close>

definition degs :: "weights \<Rightarrow> nat list \<Rightarrow> nat \<Rightarrow> rat" where
  "degs W nodes u = sum_list (map (W u) nodes)"

text \<open>\<^verbatim>\<open>update_status\<close>, called with the partition after the split. It raises when
  \<open>old\<close> or \<open>new\<close> is no color, when the partition cannot index \<^verbatim>\<open>neighbor\<close>, when the
  buffers have fewer than \<open>m\<close> rows, and when \<^verbatim>\<open>neighbor\<close> is not \<open>v \<times> (m - 1)\<close>. As in
  \<^verbatim>\<open>init_status\<close>, the loop of lines 134 to 139 is one fold for \<^verbatim>\<open>upper_deg\<close> and one
  for \<^verbatim>\<open>lower_deg\<close>.\<close>

definition update_status ::
  "nat \<Rightarrow> partition \<Rightarrow> ColorStatus \<Rightarrow> weights \<Rightarrow> nat \<Rightarrow> nat \<Rightarrow> error + ColorStatus" where
  "update_status v p color_status W old new =
     (let m = length p in
      if \<not> (old < m \<and> new < m \<and> indexable v p \<and> m \<le> cs_n color_status \<and>
             length (neighbor color_status) = v \<and>
             list_all (\<lambda>row. Suc (length row) = m) (neighbor color_status))
      then Inl TensorError
      else
        let old_nodes = p ! old;
            new_nodes = p ! new;
            nb0 = map (\<lambda>row. row @ [0]) (neighbor color_status);
            nb1 = map (\<lambda>(u, row). row[old := degs W old_nodes u]) (enumerate 0 nb0);
            nb = map (\<lambda>(u, row). row[new := degs W new_nodes u]) (enumerate 0 nb1);
            upper_rows = set_row m new (map (col_max nb new_nodes) [0..<m])
                           (set_row m old (map (col_max nb old_nodes) [0..<m])
                              (upper_base color_status));
            lower_rows = set_row m new (map (col_min nb new_nodes) [0..<m])
                           (set_row m old (map (col_min nb old_nodes) [0..<m])
                              (lower_base color_status));
            upper_deg = fold (\<lambda>(i, X) U. set_cell i new (col_max nb X new)
                                             (set_cell i old (col_max nb X old) U))
                          (enumerate 0 p) upper_rows;
            lower_deg = fold (\<lambda>(i, X) L. set_cell i new (col_min nb X new)
                                             (set_cell i old (col_min nb X old) L))
                          (enumerate 0 p) lower_rows
        in Inr (color_status\<lparr>neighbor := nb, upper_base := upper_deg, lower_base := lower_deg,
                  errors_base := refresh_errors m upper_deg lower_deg (errors_base color_status)\<rparr>))"

text \<open>\<^verbatim>\<open>pick_witness\<close> returns \<^verbatim>\<open>(witness[0], witness[1], split_deg, q_error)\<close>. The
  progress line printed every 10 colors has no effect on the state and is left out.\<close>

definition pick_witness ::
  "partition \<Rightarrow> ColorStatus \<Rightarrow> error + (nat \<times> nat \<times> float32 \<times> float32)" where
  "pick_witness p color_status =
     (let m = length p;
          flat = concat (block m (errors_base color_status))
      in if flat = [] then Inl TensorError
         else
           let t = argmax flat;
               w0 = t div m;
               w1 = t mod m
           in if \<not> (w0 < length (errors_base color_status) \<and>
                     w1 < length (errors_base color_status ! w0) \<and>
                     list_all (\<lambda>x. x < length (neighbor color_status) \<and>
                                   w1 < length (neighbor color_status ! x)) (p ! w0))
              then Inl TensorError
              else
                let q_error = errors_base color_status ! w0 ! w1;
                    split_deg = mean (map (\<lambda>x. neighbor color_status ! x ! w1) (p ! w0))
                in Inr (w0, w1, split_deg, q_error))"

section \<open>The refinement loop\<close>

text \<open>The objects \<^verbatim>\<open>q_color\<close> works on: \<^verbatim>\<open>self.p\<close> and its two local statuses.\<close>

record qstate =
  qs_p :: partition
  color_status_out :: ColorStatus
  color_status_in :: ColorStatus

datatype step = Break qstate | Continue qstate | Raise error qstate

text \<open>Lines 172 to 174: both buffers double when the number of colors has reached the
  capacity of the incoming status.\<close>

definition grow :: "qstate \<Rightarrow> error + qstate" where
  "grow s =
     (if length (qs_p s) = cs_n (color_status_in s) then
        (case resize (color_status_in s) (cs_n (color_status_in s) * 2) of
           Inl e \<Rightarrow> Inl e
         | Inr in' \<Rightarrow>
           (case resize (color_status_out s) (cs_n (color_status_out s) * 2) of
              Inl e \<Rightarrow> Inl e
            | Inr out' \<Rightarrow> Inr (s\<lparr>color_status_out := out', color_status_in := in'\<rparr>)))
      else Inr s)"

text \<open>Lines 183 to 185 and 187 to 189: the split on the chosen status and witness, then
  the update of both statuses with \<^verbatim>\<open>old = witness_i\<close> and \<^verbatim>\<open>new = len(self.p) - 1\<close>.
  When a call raises, \<^verbatim>\<open>self.p\<close> is as that call left it; the statuses are locals of
  \<^verbatim>\<open>q_color\<close> and are lost with the exception, so \<open>Raise\<close> keeps them as the last
  completed call left them.\<close>

definition split_and_update ::
  "nat \<Rightarrow> weights \<Rightarrow> qstate \<Rightarrow> ColorStatus \<Rightarrow> nat \<Rightarrow> nat \<Rightarrow> float32 \<Rightarrow> step" where
  "split_and_update v W s color_status witness_i witness_j split_deg =
     (case split_color (qs_p s) color_status witness_i witness_j split_deg of
        Raised e p' \<Rightarrow> Raise e (s\<lparr>qs_p := p'\<rparr>)
      | Ok p' \<Rightarrow>
        (case update_status v p' (color_status_out s) W witness_i (length p' - 1) of
           Inl e \<Rightarrow> Raise e (s\<lparr>qs_p := p'\<rparr>)
         | Inr out' \<Rightarrow>
           (case update_status v p' (color_status_in s) (transpose_w W) witness_i
                   (length p' - 1) of
              Inl e \<Rightarrow> Raise e (s\<lparr>qs_p := p', color_status_out := out'\<rparr>)
            | Inr in' \<Rightarrow>
                Continue \<lparr>qs_p = p', color_status_out = out', color_status_in = in'\<rparr>)))"

text \<open>The body of the \<^verbatim>\<open>while\<close> loop, lines 172 to 189. The errors are float32 tensors
  and the comparison casts \<^verbatim>\<open>q_errors\<close> to float32: the parameter \<open>q_errors\<close> of the model
  is that float32 value.\<close>

definition loop_body :: "nat \<Rightarrow> weights \<Rightarrow> float32 \<Rightarrow> qstate \<Rightarrow> step" where
  "loop_body v W q_errors s =
     (case grow s of
        Inl e \<Rightarrow> Raise e s
      | Inr s1 \<Rightarrow>
        (case pick_witness (qs_p s1) (color_status_in s1) of
           Inl e \<Rightarrow> Raise e s1
         | Inr (witness_in_i, witness_in_j, split_deg_in, q_error_in) \<Rightarrow>
           (case pick_witness (qs_p s1) (color_status_out s1) of
              Inl e \<Rightarrow> Raise e s1
            | Inr (witness_out_i, witness_out_j, split_deg_out, q_error_out) \<Rightarrow>
                if fl_le q_error_in q_errors \<and> fl_le q_error_out q_errors then Break s1
                else if fl_ge q_error_out q_error_in
                then split_and_update v W s1 (color_status_out s1)
                       witness_out_i witness_out_j split_deg_out
                else split_and_update v W s1 (color_status_in s1)
                       witness_in_i witness_in_j split_deg_in)))"

text \<open>\<^verbatim>\<open>len(self.p) < n_colors\<close>, an integer against a float.\<close>

definition below_cap :: "partition \<Rightarrow> float32 \<Rightarrow> bool" where
  "below_cap p n_colors = fl_less (Fin (of_nat (length p))) n_colors"

partial_function (option) q_loop ::
  "nat \<Rightarrow> weights \<Rightarrow> float32 \<Rightarrow> float32 \<Rightarrow> qstate \<Rightarrow> qstate outcome option" where
  "q_loop v W n_colors q_errors s =
     (if below_cap (qs_p s) n_colors then
        (case loop_body v W q_errors s of
           Break s' \<Rightarrow> Some (Ok s')
         | Raise e s' \<Rightarrow> Some (Raised e s')
         | Continue s' \<Rightarrow> q_loop v W n_colors q_errors s')
      else Some (Ok s))"

declare q_loop.simps [code]

text \<open>\<^verbatim>\<open>int(min(n_colors, self.BASE_MATRIX_SIZE))\<close> and the check of
  \<^verbatim>\<open>torch.zeros((n, n))\<close> on it: \<^verbatim>\<open>int\<close> truncates towards zero and refuses
  \<^verbatim>\<open>nan\<close> and the infinities.\<close>

definition capacity :: "float32 \<Rightarrow> error + nat" where
  "capacity n_colors =
     (case py_min n_colors (Fin (of_nat BASE_MATRIX_SIZE)) of
        NaN \<Rightarrow> Inl ValueError
      | PInf \<Rightarrow> Inl OverflowError
      | NInf \<Rightarrow> Inl OverflowError
      | Fin r \<Rightarrow>
          (let k = (if 0 \<le> r then \<lfloor>r\<rfloor> else \<lceil>r\<rceil>)
           in if k < 0 then Inl TensorError else Inr (nat k)))"

text \<open>The fields of the engine that \<^verbatim>\<open>q_color\<close> leaves behind.\<close>

record QuasiStableColoring =
  self_p :: partition
  self_q_error :: float32

text \<open>Lines 166 to 169: both statuses, created and initialised on the one-color
  partition.\<close>

definition q_init :: "Graph \<Rightarrow> float32 \<Rightarrow> error + qstate" where
  "q_init G n_colors =
     (let v = num_nodes G; W = adj_t G in
      case capacity n_colors of
        Inl e \<Rightarrow> Inl e
      | Inr n \<Rightarrow>
        (case init_status v (initial_p v) (ColorStatus_init v n) W of
           Inl e \<Rightarrow> Inl e
         | Inr out \<Rightarrow>
           (case init_status v (initial_p v) (ColorStatus_init v n) (transpose_w W) of
              Inl e \<Rightarrow> Inl e
            | Inr inn \<Rightarrow>
                Inr \<lparr>qs_p = initial_p v, color_status_out = out, color_status_in = inn\<rparr>)))"

text \<open>Lines 191 to 193.\<close>

definition q_finish :: "qstate \<Rightarrow> QuasiStableColoring outcome" where
  "q_finish s =
     (case pick_witness (qs_p s) (color_status_out s) of
        Inl e \<Rightarrow> Raised e \<lparr>self_p = qs_p s, self_q_error = PInf\<rparr>
      | Inr (wo_i, wo_j, deg_out, q_errors_out) \<Rightarrow>
        (case pick_witness (qs_p s) (color_status_in s) of
           Inl e \<Rightarrow> Raised e \<lparr>self_p = qs_p s, self_q_error = PInf\<rparr>
         | Inr (wi_i, wi_j, deg_in, q_errors_in) \<Rightarrow>
             Ok \<lparr>self_p = qs_p s, self_q_error = py_max q_errors_out q_errors_in\<rparr>))"

text \<open>\<^verbatim>\<open>q_color\<close>, called on an engine as the constructor leaves it (\<^verbatim>\<open>self.p\<close> is the
  one initial color). The result is \<open>None\<close> when the loop does not return, else what the
  call leaves in \<^verbatim>\<open>self.p\<close> and \<^verbatim>\<open>self.q_error\<close> (which the constructor set to
  \<^verbatim>\<open>np.inf\<close>), normally or with the exception raised.\<close>

definition q_color ::
  "Graph \<Rightarrow> bool \<Rightarrow> float32 \<Rightarrow> float32 \<Rightarrow> QuasiStableColoring outcome option" where
  "q_color G weighting n_colors q_errors =
     (case q_init G n_colors of
        Inl e \<Rightarrow> Some (Raised e \<lparr>self_p = initial_p (num_nodes G), self_q_error = PInf\<rparr>)
      | Inr s0 \<Rightarrow>
        (case q_loop (num_nodes G) (adj_t G) n_colors q_errors s0 of
           None \<Rightarrow> None
         | Some (Raised e s) \<Rightarrow> Some (Raised e \<lparr>self_p = qs_p s, self_q_error = PInf\<rparr>)
         | Some (Ok s) \<Rightarrow> Some (q_finish s)))"

section \<open>Invariants of a run\<close>

text \<open>An \<open>n \<times> n\<close> buffer.\<close>

definition mat_ok :: "nat \<Rightarrow> 'a list list \<Rightarrow> bool" where
  "mat_ok n B = (length B = n \<and> list_all (\<lambda>row. length row = n) B)"

text \<open>The neighbor matrix of a partition: entry \<open>(node, c)\<close> is the weight from \<open>node\<close> to
  the members of color \<open>c\<close>.\<close>

definition neighbor_of :: "nat \<Rightarrow> weights \<Rightarrow> partition \<Rightarrow> rat list list" where
  "neighbor_of v W p = map (\<lambda>u. map (\<lambda>X. degs W X u) p) [0..<v]"

text \<open>The spread of column \<open>j\<close> of a neighbor matrix over the members of a color.\<close>

definition spread :: "rat list list \<Rightarrow> nat list \<Rightarrow> nat \<Rightarrow> rat" where
  "spread nb X j = tensor_max (map (\<lambda>x. nb ! x ! j) X) - tensor_min (map (\<lambda>x. nb ! x ! j) X)"

text \<open>A status is consistent with a partition of \<open>m\<close> colors: the capacity holds the
  colors, \<^verbatim>\<open>neighbor\<close> is the neighbor matrix of the partition, and in the active block
  \<^verbatim>\<open>upper\<close> and \<^verbatim>\<open>lower\<close> are the column maxima and minima over each color and
  \<^verbatim>\<open>errors\<close> their difference.\<close>

definition status_ok :: "nat \<Rightarrow> weights \<Rightarrow> partition \<Rightarrow> ColorStatus \<Rightarrow> bool" where
  "status_ok v W p cs \<longleftrightarrow>
     length p \<le> cs_n cs \<and>
     mat_ok (cs_n cs) (upper_base cs) \<and> mat_ok (cs_n cs) (lower_base cs) \<and>
     mat_ok (cs_n cs) (errors_base cs) \<and>
     neighbor cs = neighbor_of v W p \<and>
     (\<forall>i<length p. \<forall>j<length p.
        upper_base cs ! i ! j = col_max (neighbor cs) (p ! i) j \<and>
        lower_base cs ! i ! j = col_min (neighbor cs) (p ! i) j \<and>
        errors_base cs ! i ! j = fl_sub (upper_base cs ! i ! j) (lower_base cs ! i ! j))"

text \<open>The colors are non-empty, share no node and cover the nodes \<open>0, \<dots>, v - 1\<close>.\<close>

definition partition_ok :: "nat \<Rightarrow> partition \<Rightarrow> bool" where
  "partition_ok v p \<longleftrightarrow>
     p \<noteq> [] \<and> list_all (\<lambda>X. X \<noteq> []) p \<and> distinct (concat p) \<and> set (concat p) = {..<v}"

text \<open>The partition as the specification words it: every color is non-empty (and lists
  no node twice), two different colors share no node, and the colors together are the
  nodes \<open>0, \<dots>, v - 1\<close>.\<close>

definition is_partition :: "nat \<Rightarrow> partition \<Rightarrow> bool" where
  "is_partition v p \<longleftrightarrow>
     (\<forall>i<length p. p ! i \<noteq> [] \<and> distinct (p ! i)) \<and>
     (\<forall>i<length p. \<forall>j<length p. i \<noteq> j \<longrightarrow> set (p ! i) \<inter> set (p ! j) = {}) \<and>
     (\<Union>X\<in>set p. set X) = {..<v}"

text \<open>A state of the loop is sound for the graph: the partition is one, both statuses
  are consistent with it (the incoming one on the transposed weights) and they have the
  same capacity.\<close>

definition state_ok :: "nat \<Rightarrow> weights \<Rightarrow> qstate \<Rightarrow> bool" where
  "state_ok v W s \<longleftrightarrow>
     partition_ok v (qs_p s) \<and>
     status_ok v W (qs_p s) (color_status_out s) \<and>
     status_ok v (transpose_w W) (qs_p s) (color_status_in s) \<and>
     cs_n (color_status_out s) = cs_n (color_status_in s)"

text \<open>The states a run of \<^verbatim>\<open>q_color\<close> goes through: after the initialisation, after the
  buffers have grown at the head of an iteration, and after each iteration that split a
  color.\<close>

inductive reachable :: "Graph \<Rightarrow> float32 \<Rightarrow> float32 \<Rightarrow> qstate \<Rightarrow> bool"
  for G :: Graph and n_colors :: float32 and q_errors :: float32 where
  initial: "q_init G n_colors = Inr s \<Longrightarrow> reachable G n_colors q_errors s"
| grown: "reachable G n_colors q_errors s \<Longrightarrow> below_cap (qs_p s) n_colors \<Longrightarrow>
          grow s = Inr s' \<Longrightarrow> reachable G n_colors q_errors s'"
| iteration: "reachable G n_colors q_errors s \<Longrightarrow> below_cap (qs_p s) n_colors \<Longrightarrow>
          loop_body (num_nodes G) (adj_t G) q_errors s = Continue s' \<Longrightarrow>
          reachable G n_colors q_errors s'"

text \<open>Lines 57 to 62 of \<^verbatim>\<open>split_color\<close>: the members of a color at or below the threshold
  and those above it.\<close>

definition retain_side :: "ColorStatus \<Rightarrow> nat \<Rightarrow> float32 \<Rightarrow> nat list \<Rightarrow> nat list" where
  "retain_side cs witness_j threshold arr =
     filter (\<lambda>x. \<not> fl_less threshold (Fin (neighbor cs ! x ! witness_j))) arr"

definition eject_side :: "ColorStatus \<Rightarrow> nat \<Rightarrow> float32 \<Rightarrow> nat list \<Rightarrow> nat list" where
  "eject_side cs witness_j threshold arr =
     filter (\<lambda>x. fl_less threshold (Fin (neighbor cs ! x ! witness_j))) arr"

section \<open>Example graphs and runs\<close>

text \<open>A graph of three nodes with the edges \<open>0 \<rightarrow> 1\<close> of weight 10, \<open>1 \<rightarrow> 2\<close> of weight 10
  and \<open>2 \<rightarrow> 0\<close> of weight 13, the state of the loop after the initialisation with
  \<^verbatim>\<open>n_colors=2\<close>, and the state after the first iteration with \<^verbatim>\<open>q_errors=0.0\<close>.\<close>

definition G3 :: Graph where
  "G3 = \<lparr>num_nodes = 3,
         adj_t = (\<lambda>u x. if u = 0 \<and> x = 1 then 10 else if u = 1 \<and> x = 2 then 10
                        else if u = 2 \<and> x = 0 then 13 else 0)\<rparr>"

definition G3_init :: qstate where
  "G3_init =
     \<lparr>qs_p = [[0, 1, 2]],
      color_status_out =
        \<lparr>cs_v = 3, cs_n = 2, neighbor = [[10], [10], [13]],
         upper_base = [[Fin 13, Fin 0], [Fin 0, Fin 0]],
         lower_base = [[Fin 10, PInf], [PInf, PInf]],
         errors_base = [[Fin 3, Fin 0], [Fin 0, Fin 0]]\<rparr>,
      color_status_in =
        \<lparr>cs_v = 3, cs_n = 2, neighbor = [[13], [10], [10]],
         upper_base = [[Fin 13, Fin 0], [Fin 0, Fin 0]],
         lower_base = [[Fin 10, PInf], [PInf, PInf]],
         errors_base = [[Fin 3, Fin 0], [Fin 0, Fin 0]]\<rparr>\<rparr>"

definition G3_split :: qstate where
  "G3_split =
     \<lparr>qs_p = [[0, 1], [2]],
      color_status_out =
        \<lparr>cs_v = 3, cs_n = 2, neighbor = [[10, 0], [0, 10], [13, 0]],
         upper_base = [[Fin 10, Fin 10], [Fin 13, Fin 0]],
         lower_base = [[Fin 0, Fin 0], [Fin 13, Fin 0]],
         errors_base = [[Fin 10, Fin 10], [Fin 0, Fin 0]]\<rparr>,
      color_status_in =
        \<lparr>cs_v = 3, cs_n = 2, neighbor = [[0, 13], [10, 0], [10, 0]],
         upper_base = [[Fin 10, Fin 13], [Fin 10, Fin 0]],
         lower_base = [[Fin 0, Fin 0], [Fin 10, Fin 0]],
         errors_base = [[Fin 10, Fin 13], [Fin 0, Fin 0]]\<rparr>\<rparr>"

text \<open>The same graph with \<^verbatim>\<open>n_colors=3\<close>: the states after the initialisation, after the
  first iteration and after the second.\<close>

definition G3_wide_init :: qstate where
  "G3_wide_init =
     \<lparr>qs_p = [[0, 1, 2]],
      color_status_out =
        \<lparr>cs_v = 3, cs_n = 3, neighbor = [[10], [10], [13]],
         upper_base = [[Fin 13, Fin 0, Fin 0], [Fin 0, Fin 0, Fin 0], [Fin 0, Fin 0, Fin 0]],
         lower_base = [[Fin 10, PInf, PInf], [PInf, PInf, PInf], [PInf, PInf, PInf]],
         errors_base = [[Fin 3, Fin 0, Fin 0], [Fin 0, Fin 0, Fin 0], [Fin 0, Fin 0, Fin 0]]\<rparr>,
      color_status_in =
        \<lparr>cs_v = 3, cs_n = 3, neighbor = [[13], [10], [10]],
         upper_base = [[Fin 13, Fin 0, Fin 0], [Fin 0, Fin 0, Fin 0], [Fin 0, Fin 0, Fin 0]],
         lower_base = [[Fin 10, PInf, PInf], [PInf, PInf, PInf], [PInf, PInf, PInf]],
         errors_base = [[Fin 3, Fin 0, Fin 0], [Fin 0, Fin 0, Fin 0], [Fin 0, Fin 0, Fin 0]]\<rparr>\<rparr>"

definition G3_wide_split :: qstate where
  "G3_wide_split =
     \<lparr>qs_p = [[0, 1], [2]],
      color_status_out =
        \<lparr>cs_v = 3, cs_n = 3, neighbor = [[10, 0], [0, 10], [13, 0]],
         upper_base = [[Fin 10, Fin 10, Fin 0], [Fin 13, Fin 0, Fin 0], [Fin 0, Fin 0, Fin 0]],
         lower_base = [[Fin 0, Fin 0, PInf], [Fin 13, Fin 0, PInf], [PInf, PInf, PInf]],
         errors_base = [[Fin 10, Fin 10, Fin 0], [Fin 0, Fin 0, Fin 0], [Fin 0, Fin 0, Fin 0]]\<rparr>,
      color_status_in =
        \<lparr>cs_v = 3, cs_n = 3, neighbor = [[0, 13], [10, 0], [10, 0]],
         upper_base = [[Fin 10, Fin 13, Fin 0], [Fin 10, Fin 0, Fin 0], [Fin 0, Fin 0, Fin 0]],
         lower_base = [[Fin 0, Fin 0, PInf], [Fin 10, Fin 0, PInf], [PInf, PInf, PInf]],
         errors_base = [[Fin 10, Fin 13, Fin 0], [Fin 0, Fin 0, Fin 0], [Fin 0, Fin 0, Fin 0]]\<rparr>\<rparr>"

definition G3_wide_next :: qstate where
  "G3_wide_next =
     \<lparr>qs_p = [[1], [2], [0]],
      color_status_out =
        \<lparr>cs_v = 3, cs_n = 3, neighbor = [[10, 0, 0], [0, 10, 0], [0, 0, 13]],
         upper_base = [[Fin 0, Fin 10, Fin 0], [Fin 0, Fin 0, Fin 13], [Fin 10, Fin 0, Fin 0]],
         lower_base = [[Fin 0, Fin 10, Fin 0], [Fin 0, Fin 0, Fin 13], [Fin 10, Fin 0, Fin 0]],
         errors_base = [[Fin 0, Fin 0, Fin 0], [Fin 0, Fin 0, Fin 0], [Fin 0, Fin 0, Fin 0]]\<rparr>,
      color_status_in =
        \<lparr>cs_v = 3, cs_n = 3, neighbor = [[0, 13, 0], [0, 0, 10], [10, 0, 0]],
         upper_base = [[Fin 0, Fin 0, Fin 10], [Fin 10, Fin 0, Fin 0], [Fin 0, Fin 13, Fin 0]],
         lower_base = [[Fin 0, Fin 0, Fin 10], [Fin 10, Fin 0, Fin 0], [Fin 0, Fin 13, Fin 0]],
         errors_base = [[Fin 0, Fin 0, Fin 0], [Fin 0, Fin 0, Fin 0], [Fin 0, Fin 0, Fin 0]]\<rparr>\<rparr>"

text \<open>The graph of two nodes with no edge: every error is 0 after the initialisation.\<close>

definition G2 :: Graph where
  "G2 = \<lparr>num_nodes = 2, adj_t = (\<lambda>u x. 0)\<rparr>"

definition G2_init :: qstate where
  "G2_init =
     \<lparr>qs_p = [[0, 1]],
      color_status_out =
        \<lparr>cs_v = 2, cs_n = 2, neighbor = [[0], [0]],
         upper_base = [[Fin 0, Fin 0], [Fin 0, Fin 0]],
         lower_base = [[Fin 0, PInf], [PInf, PInf]],
         errors_base = [[Fin 0, Fin 0], [Fin 0, Fin 0]]\<rparr>,
      color_status_in =
        \<lparr>cs_v = 2, cs_n = 2, neighbor = [[0], [0]],
         upper_base = [[Fin 0, Fin 0], [Fin 0, Fin 0]],
         lower_base = [[Fin 0, PInf], [PInf, PInf]],
         errors_base = [[Fin 0, Fin 0], [Fin 0, Fin 0]]\<rparr>\<rparr>"

section \<open>Basic facts about matrices\<close>

lemma mat_ok_length: "mat_ok n B \<Longrightarrow> length B = n"
  by (simp add: mat_ok_def)

lemma mat_ok_row: "mat_ok n B \<Longrightarrow> i < n \<Longrightarrow> length (B ! i) = n"
  by (simp add: mat_ok_def list_all_length)

lemma mat_okI: "length B = n \<Longrightarrow> (\<And>i. i < n \<Longrightarrow> length (B ! i) = n) \<Longrightarrow> mat_ok n B"
  by (simp add: mat_ok_def list_all_length)

lemma mat_ok_full: "mat_ok n (full n x)"
  by (simp add: mat_ok_def full_def list_all_length)

lemma nth_full: "i < n \<Longrightarrow> j < n \<Longrightarrow> full n x ! i ! j = x"
  by (simp add: full_def)

lemma enumerate_nth: "i < length xs \<Longrightarrow> enumerate k xs ! i = (k + i, xs ! i)"
  by (simp add: nth_enumerate_eq)

lemma nth_upd: "xs[i := x] ! j = (if i = j \<and> i < length xs then x else xs ! j)"
  by (cases "i < length xs") (auto simp: list_update_beyond)

lemma mat_ok_set_row:
  "mat_ok n B \<Longrightarrow> m \<le> n \<Longrightarrow> length vec = m \<Longrightarrow> mat_ok n (set_row m i vec B)"
  by (auto simp: mat_ok_def set_row_def list_all_length nth_upd)

lemma nth_set_row:
  "mat_ok n B \<Longrightarrow> m \<le> n \<Longrightarrow> length vec = m \<Longrightarrow> a < n \<Longrightarrow> b < n \<Longrightarrow>
   set_row m i vec B ! a ! b = (if a = i \<and> b < m then vec ! b else B ! a ! b)"
  by (auto simp: mat_ok_def set_row_def list_all_length nth_upd nth_append)

lemma mat_ok_set_cell: "mat_ok n B \<Longrightarrow> mat_ok n (set_cell i j x B)"
  by (auto simp: mat_ok_def set_cell_def list_all_length nth_upd)

lemma nth_set_cell:
  "mat_ok n B \<Longrightarrow> a < n \<Longrightarrow> b < n \<Longrightarrow>
   set_cell i j x B ! a ! b = (if a = i \<and> b = j then x else B ! a ! b)"
  by (auto simp: mat_ok_def set_cell_def list_all_length nth_upd)

lemma mat_ok_refresh_errors:
  "mat_ok n U \<Longrightarrow> mat_ok n L \<Longrightarrow> mat_ok n E \<Longrightarrow> m \<le> n \<Longrightarrow> mat_ok n (refresh_errors m U L E)"
  by (auto simp: mat_ok_def refresh_errors_def list_all_length nth_enumerate_eq)

lemma nth_refresh_errors:
  "mat_ok n U \<Longrightarrow> mat_ok n L \<Longrightarrow> mat_ok n E \<Longrightarrow> m \<le> n \<Longrightarrow> a < n \<Longrightarrow> b < n \<Longrightarrow>
   refresh_errors m U L E ! a ! b =
     (if a < m \<and> b < m then fl_sub (U ! a ! b) (L ! a ! b) else E ! a ! b)"
  by (auto simp: mat_ok_def refresh_errors_def list_all_length nth_enumerate_eq nth_append)

lemma mat_ok_paste:
  "mat_ok m old \<Longrightarrow> m \<le> n \<Longrightarrow> mat_ok n (paste m old (full n x))"
  by (auto simp: mat_ok_def paste_def full_def list_all_length nth_enumerate_eq)

lemma nth_paste:
  "mat_ok m old \<Longrightarrow> m \<le> n \<Longrightarrow> a < n \<Longrightarrow> b < n \<Longrightarrow>
   paste m old (full n x) ! a ! b = (if a < m \<and> b < m then old ! a ! b else x)"
  by (auto simp: mat_ok_def paste_def full_def list_all_length nth_enumerate_eq nth_append)

section \<open>Loops over the colors\<close>

lemma length_fold_rows:
  "length (fold (\<lambda>(i, X) B. B[i := F X (B ! i)]) (enumerate k p) B) = length B"
  by (induction p arbitrary: k B) auto

lemma nth_fold_rows:
  "a < length B \<Longrightarrow>
   fold (\<lambda>(i, X) B. B[i := F X (B ! i)]) (enumerate k p) B ! a =
     (if k \<le> a \<and> a < k + length p then F (p ! (a - k)) (B ! a) else B ! a)"
proof (induction p arbitrary: k B)
  case Nil
  then show ?case by auto
next
  case (Cons X p)
  have len: "a < length (B[k := F X (B ! k)])" using Cons.prems by simp
  show ?case
    using Cons.IH [OF len, of "Suc k"] Cons.prems
    by (auto simp: nth_upd nth_Cons' Suc_diff_le)
qed

lemma set_cell_twice:
  "set_cell i j y (set_cell i k x B) = B[i := ((B ! i)[k := x])[j := y]]"
  by (cases "i < length B") (simp_all add: set_cell_def list_update_beyond)

section \<open>The neighbor matrix\<close>

lemma nth_neighbor_of:
  "u < v \<Longrightarrow> c < length p \<Longrightarrow> neighbor_of v W p ! u ! c = degs W (p ! c) u"
  by (simp add: neighbor_of_def)

lemma sum_list_delta:
  "a < v \<Longrightarrow> (\<Sum>x\<leftarrow>[0..<v]. if x = a then f x else (0::rat)) = f a"
  by (simp add: interv_sum_list_conv_sum_set_nat)

lemma sum_count_list:
  "list_all (\<lambda>x. x < v) X \<Longrightarrow>
   (\<Sum>x\<leftarrow>[0..<v]. f x * of_nat (count_list X x)) = (sum_list (map f X) :: rat)"
proof (induction X)
  case Nil
  then show ?case by simp
next
  case (Cons a X)
  have "(\<Sum>x\<leftarrow>[0..<v]. f x * of_nat (count_list (a # X) x)) =
        (\<Sum>x\<leftarrow>[0..<v]. (if x = a then f x else 0) + f x * of_nat (count_list X x))"
    by (rule arg_cong [where f = sum_list]) (auto simp: algebra_simps)
  also have "\<dots> = f a + sum_list (map f X)"
    using Cons by (simp add: sum_list_addf sum_list_delta)
  finally show ?case by simp
qed

lemma indexable_nth:
  "indexable v p \<Longrightarrow> c < length p \<Longrightarrow> p ! c \<noteq> [] \<and> list_all (\<lambda>x. x < v) (p ! c)"
  by (simp add: indexable_def list_all_length)

lemma mm_partition_matrix:
  assumes "indexable v p"
  shows "mm v W (length p) (partition_matrix v p) = neighbor_of v W p"
proof -
  have "sum_list (map (\<lambda>x. W u x * partition_matrix v p ! x ! c) [0..<v]) = degs W (p ! c) u"
    if "u < v" "c < length p" for u c
  proof -
    have "sum_list (map (\<lambda>x. W u x * partition_matrix v p ! x ! c) [0..<v]) =
          sum_list (map (\<lambda>x. W u x * of_nat (count_list (p ! c) x)) [0..<v])"
      by (rule arg_cong [where f = sum_list]) (simp add: partition_matrix_def that)
    also have "\<dots> = sum_list (map (W u) (p ! c))"
      by (rule sum_count_list) (simp add: indexable_nth [OF assms that(2)])
    finally show ?thesis by (simp add: degs_def)
  qed
  then show ?thesis
    by (auto simp: mm_def neighbor_of_def intro!: nth_equalityI)
qed

text \<open>The three steps of \<^verbatim>\<open>update_status\<close> on \<^verbatim>\<open>neighbor\<close>.\<close>

lemma update_neighbor:
  assumes "old < length p"
  shows "map (\<lambda>(u, row). row[length p := degs W E u])
           (enumerate 0 (map (\<lambda>(u, row). row[old := degs W R' u])
              (enumerate 0 (map (\<lambda>row. row @ [0]) (neighbor_of v W p))))) =
         neighbor_of v W (p[old := R'] @ [E])"
  using assms
  by (auto simp: neighbor_of_def nth_enumerate_eq nth_append nth_upd intro!: nth_equalityI)

section \<open>Consistency of a status with the partition\<close>

lemma fold_set_row_conv:
  "fold (\<lambda>(i, X). set_row m i (h X)) (enumerate k p) B =
   fold (\<lambda>(i, X) B. B[i := h X @ drop m (B ! i)]) (enumerate k p) B"
  by (rule arg_cong [where f = "\<lambda>f. fold f (enumerate k p) B"])
     (simp add: fun_eq_iff set_row_def)

lemma fold_set_cell_conv:
  "fold (\<lambda>(i, X) U. set_cell i new (g X) (set_cell i old (f X) U)) (enumerate k p) B =
   fold (\<lambda>(i, X) B. B[i := (B ! i)[old := f X, new := g X]]) (enumerate k p) B"
  by (rule arg_cong [where f = "\<lambda>f. fold f (enumerate k p) B"])
     (simp add: fun_eq_iff set_cell_twice)

lemma row_fold_set_row:
  assumes "a < length B"
  shows "fold (\<lambda>(i, X). set_row m i (h X)) (enumerate 0 p) B ! a =
         (if a < length p then h (p ! a) @ drop m (B ! a) else B ! a)"
  using nth_fold_rows [OF assms, of "\<lambda>X row. h X @ drop m row" 0 p]
  by (simp add: fold_set_row_conv)

lemma length_fold_set_row:
  "length (fold (\<lambda>(i, X). set_row m i (h X)) (enumerate 0 p) B) = length B"
  using length_fold_rows [of "\<lambda>X row. h X @ drop m row" 0 p B]
  by (simp add: fold_set_row_conv)

lemma row_fold_set_cell:
  assumes "a < length B"
  shows "fold (\<lambda>(i, X) U. set_cell i new (g X) (set_cell i old (f X) U)) (enumerate 0 p) B ! a =
         (if a < length p then (B ! a)[old := f (p ! a), new := g (p ! a)] else B ! a)"
  using nth_fold_rows [OF assms, of "\<lambda>X row. row[old := f X, new := g X]" 0 p]
  by (simp add: fold_set_cell_conv)

lemma length_fold_set_cell:
  "length (fold (\<lambda>(i, X) U. set_cell i new (g X) (set_cell i old (f X) U))
             (enumerate 0 p) B) = length B"
  using length_fold_rows [of "\<lambda>X row. row[old := f X, new := g X]" 0 p B]
  by (simp add: fold_set_cell_conv)

lemma mat_ok_fold_set_row:
  assumes "mat_ok n B" "m \<le> n" "\<And>X. length (h X) = m"
  shows "mat_ok n (fold (\<lambda>(i, X). set_row m i (h X)) (enumerate 0 p) B)"
proof (rule mat_okI)
  show "length (fold (\<lambda>(i, X). set_row m i (h X)) (enumerate 0 p) B) = n"
    using assms(1) by (simp add: length_fold_set_row mat_ok_length)
  fix a assume "a < n"
  then show "length (fold (\<lambda>(i, X). set_row m i (h X)) (enumerate 0 p) B ! a) = n"
    using assms by (simp add: row_fold_set_row mat_ok_length mat_ok_row)
qed

lemma nth_fold_set_row:
  assumes "mat_ok n B" "m \<le> n" "\<And>X. length (h X) = m" "a < n" "b < n"
  shows "fold (\<lambda>(i, X). set_row m i (h X)) (enumerate 0 p) B ! a ! b =
         (if a < length p \<and> b < m then h (p ! a) ! b else B ! a ! b)"
  using assms
  by (simp add: row_fold_set_row mat_ok_length mat_ok_row nth_append)

lemma mat_ok_fold_set_cell:
  assumes "mat_ok n B"
  shows "mat_ok n (fold (\<lambda>(i, X) U. set_cell i new (g X) (set_cell i old (f X) U))
                     (enumerate 0 p) B)"
proof (rule mat_okI)
  show "length (fold (\<lambda>(i, X) U. set_cell i new (g X) (set_cell i old (f X) U))
                  (enumerate 0 p) B) = n"
    using assms by (simp add: length_fold_set_cell mat_ok_length)
  fix a assume "a < n"
  then show "length (fold (\<lambda>(i, X) U. set_cell i new (g X) (set_cell i old (f X) U))
                       (enumerate 0 p) B ! a) = n"
    using assms by (simp add: row_fold_set_cell mat_ok_length mat_ok_row)
qed

lemma nth_fold_set_cell:
  assumes "mat_ok n B" "a < n" "b < n"
  shows "fold (\<lambda>(i, X) U. set_cell i new (g X) (set_cell i old (f X) U))
           (enumerate 0 p) B ! a ! b =
         (if a < length p \<and> b = new then g (p ! a)
          else if a < length p \<and> b = old then f (p ! a) else B ! a ! b)"
  using assms
  by (simp add: row_fold_set_cell mat_ok_length mat_ok_row nth_upd)

lemma init_status_ok:
  assumes "indexable v p" "length (concat p) \<le> v" "length p \<le> cs_n cs"
    and "mat_ok (cs_n cs) (upper_base cs)" "mat_ok (cs_n cs) (lower_base cs)"
    and "mat_ok (cs_n cs) (errors_base cs)"
  shows "\<exists>cs'. init_status v p cs W = Inr cs' \<and> status_ok v W p cs' \<and> cs_n cs' = cs_n cs"
proof -
  define m where "m = length p"
  define nb where "nb = mm v W m (partition_matrix v p)"
  define U where "U = fold (\<lambda>(i, X). set_row m i (map (col_max nb X) [0..<m]))
                          (enumerate 0 p) (upper_base cs)"
  define L where "L = fold (\<lambda>(i, X). set_row m i (map (col_min nb X) [0..<m]))
                          (enumerate 0 p) (lower_base cs)"
  define cs' where "cs' = cs\<lparr>neighbor := nb, upper_base := U, lower_base := L,
                  errors_base := refresh_errors m U L (errors_base cs)\<rparr>"
  have run: "init_status v p cs W = Inr cs'"
    using assms(1-3) by (simp add: init_status_def Let_def cs'_def U_def L_def nb_def m_def)
  have mn: "m \<le> cs_n cs" using assms(3) by (simp add: m_def)
  have nb: "nb = neighbor_of v W p"
    unfolding nb_def m_def by (rule mm_partition_matrix [OF assms(1)])
  have okU: "mat_ok (cs_n cs) U"
    unfolding U_def by (rule mat_ok_fold_set_row [OF assms(4) mn]) (simp_all add: assms(3))
  have okL: "mat_ok (cs_n cs) L"
    unfolding L_def by (rule mat_ok_fold_set_row [OF assms(5) mn]) (simp_all add: assms(3))
  have okE: "mat_ok (cs_n cs) (refresh_errors m U L (errors_base cs))"
    by (rule mat_ok_refresh_errors [OF okU okL assms(6) mn])
  have cells: "U ! i ! j = col_max nb (p ! i) j \<and> L ! i ! j = col_min nb (p ! i) j \<and>
               refresh_errors m U L (errors_base cs) ! i ! j = fl_sub (U ! i ! j) (L ! i ! j)"
    if "i < m" "j < m" for i j
  proof -
    have ij: "i < cs_n cs" "j < cs_n cs" using that mn by simp_all
    have "U ! i ! j = col_max nb (p ! i) j"
      unfolding U_def using that nth_fold_set_row [OF assms(4) mn _ ij, of "\<lambda>X. map (col_max nb X) [0..<m]" p]
      by (simp add: m_def)
    moreover have "L ! i ! j = col_min nb (p ! i) j"
      unfolding L_def using that nth_fold_set_row [OF assms(5) mn _ ij, of "\<lambda>X. map (col_min nb X) [0..<m]" p]
      by (simp add: m_def)
    moreover have "refresh_errors m U L (errors_base cs) ! i ! j = fl_sub (U ! i ! j) (L ! i ! j)"
      using that by (simp add: nth_refresh_errors [OF okU okL assms(6) mn ij])
    ultimately show ?thesis by simp
  qed
  have "status_ok v W p cs'"
    unfolding status_ok_def using okU okL okE nb cells assms(3)
    by (simp add: cs'_def m_def)
  then show ?thesis using run by (simp add: cs'_def)
qed

lemma col_max_cong:
  "(\<And>x. x \<in> set X \<Longrightarrow> nb ! x ! j = nb' ! x ! j) \<Longrightarrow> col_max nb X j = col_max nb' X j"
  by (simp add: col_max_def cong: map_cong)

lemma col_min_cong:
  "(\<And>x. x \<in> set X \<Longrightarrow> nb ! x ! j = nb' ! x ! j) \<Longrightarrow> col_min nb X j = col_min nb' X j"
  by (simp add: col_min_def cong: map_cong)

lemma indexable_member:
  "indexable v p \<Longrightarrow> c < length p \<Longrightarrow> x \<in> set (p ! c) \<Longrightarrow> x < v"
  by (auto simp: indexable_def list_all_iff)

lemma update_status_ok:
  assumes ok: "status_ok v W p cs" and room: "length p < cs_n cs" and old: "old < length p"
    and p': "p' = p[old := R] @ [E]" and ix: "indexable v p'"
  shows "\<exists>cs'. update_status v p' cs W old (length p) = Inr cs' \<and> status_ok v W p' cs' \<and>
           cs_n cs' = cs_n cs"
proof -
  define n where "n = cs_n cs"
  define m where "m = length p'"
  define new where "new = length p"
  have m: "m = Suc (length p)" by (simp add: m_def p')
  have mn: "m \<le> n" using room by (simp add: m n_def)
  have old_m: "old < m" and new_m: "new < m" and on: "old \<noteq> new"
    using old by (simp_all add: m new_def)
  have p'_old: "p' ! old = R" and p'_new: "p' ! new = E"
    using old by (simp_all add: p' new_def nth_append)
  have p'_other: "p' ! i = p ! i" if "i < length p" "i \<noteq> old" for i
    using that by (simp add: p' nth_append)
  have okU: "mat_ok n (upper_base cs)" and okL: "mat_ok n (lower_base cs)"
    and okE: "mat_ok n (errors_base cs)" and nb_old: "neighbor cs = neighbor_of v W p"
    using ok by (simp_all add: status_ok_def n_def)
  define nb where "nb = map (\<lambda>(u, row). row[new := degs W E u])
           (enumerate 0 (map (\<lambda>(u, row). row[old := degs W R u])
              (enumerate 0 (map (\<lambda>row. row @ [0]) (neighbor cs)))))"
  have nb: "nb = neighbor_of v W p'"
    unfolding nb_def nb_old new_def p' by (rule update_neighbor [OF old])
  define Ur where "Ur = set_row m new (map (col_max nb E) [0..<m])
                          (set_row m old (map (col_max nb R) [0..<m]) (upper_base cs))"
  define Lr where "Lr = set_row m new (map (col_min nb E) [0..<m])
                          (set_row m old (map (col_min nb R) [0..<m]) (lower_base cs))"
  define U where "U = fold (\<lambda>(i, X) U. set_cell i new (col_max nb X new)
                                             (set_cell i old (col_max nb X old) U))
                          (enumerate 0 p') Ur"
  define L where "L = fold (\<lambda>(i, X) L. set_cell i new (col_min nb X new)
                                             (set_cell i old (col_min nb X old) L))
                          (enumerate 0 p') Lr"
  define cs' where "cs' = cs\<lparr>neighbor := nb, upper_base := U, lower_base := L,
                  errors_base := refresh_errors m U L (errors_base cs)\<rparr>"
  have guard: "length (neighbor cs) = v \<and> list_all (\<lambda>row. Suc (length row) = m) (neighbor cs)"
    by (simp add: nb_old neighbor_of_def list_all_length m)
  have run: "update_status v p' cs W old new = Inr cs'"
    using old_m new_m ix mn guard p'_old p'_new
    by (simp add: update_status_def Let_def cs'_def U_def L_def Ur_def Lr_def nb_def
        m_def [symmetric] n_def [symmetric])
  have okUr: "mat_ok n Ur" unfolding Ur_def
    by (intro mat_ok_set_row okU mn) simp_all
  have okLr: "mat_ok n Lr" unfolding Lr_def
    by (intro mat_ok_set_row okL mn) simp_all
  have okU': "mat_ok n U" unfolding U_def by (rule mat_ok_fold_set_cell [OF okUr])
  have okL': "mat_ok n L" unfolding L_def by (rule mat_ok_fold_set_cell [OF okLr])
  have okE': "mat_ok n (refresh_errors m U L (errors_base cs))"
    by (rule mat_ok_refresh_errors [OF okU' okL' okE mn])
  have keep: "nb ! x ! j = neighbor cs ! x ! j"
    if "x < v" "j < length p" "j \<noteq> old" for x j
    using that by (simp add: nb nb_old nth_neighbor_of m_def [symmetric] m p'_other)
  have cells: "U ! i ! j = col_max nb (p' ! i) j \<and> L ! i ! j = col_min nb (p' ! i) j \<and>
               refresh_errors m U L (errors_base cs) ! i ! j = fl_sub (U ! i ! j) (L ! i ! j)"
    if ij: "i < m" "j < m" for i j
  proof -
    have ijn: "i < n" "j < n" using that mn by simp_all
    have il: "i < length p'" using ij by (simp add: m_def)
    have rowsU: "Ur ! i ! j = (if i = new then col_max nb E j else if i = old then col_max nb R j
                   else upper_base cs ! i ! j)"
      unfolding Ur_def using ij ijn mn okU
      by (simp add: nth_set_row [where n = n] mat_ok_set_row)
    have rowsL: "Lr ! i ! j = (if i = new then col_min nb E j else if i = old then col_min nb R j
                   else lower_base cs ! i ! j)"
      unfolding Lr_def using ij ijn mn okL
      by (simp add: nth_set_row [where n = n] mat_ok_set_row)
    have old_cells: "upper_base cs ! i ! j = col_max nb (p' ! i) j \<and>
                     lower_base cs ! i ! j = col_min nb (p' ! i) j"
      if "i \<noteq> new" "i \<noteq> old" "j \<noteq> new" "j \<noteq> old"
    proof -
      have i: "i < length p" and j: "j < length p" using that ij by (simp_all add: m new_def)
      have same: "nb ! x ! j = neighbor cs ! x ! j" if "x \<in> set (p ! i)" for x
      proof -
        have "x \<in> set (p' ! i)" using that p'_other [OF i \<open>i \<noteq> old\<close>] by simp
        then have "x < v" by (rule indexable_member [OF ix il])
        then show ?thesis using j \<open>j \<noteq> old\<close> by (rule keep)
      qed
      have "upper_base cs ! i ! j = col_max (neighbor cs) (p ! i) j"
        and "lower_base cs ! i ! j = col_min (neighbor cs) (p ! i) j"
        using ok i j by (simp_all add: status_ok_def)
      then show ?thesis
        using col_max_cong [of "p ! i" nb j "neighbor cs", OF same]
          col_min_cong [of "p ! i" nb j "neighbor cs", OF same]
        by (simp add: p'_other [OF i \<open>i \<noteq> old\<close>])
    qed
    have "U ! i ! j = col_max nb (p' ! i) j"
      unfolding U_def using il old_cells rowsU p'_old p'_new
      by (auto simp: nth_fold_set_cell [OF okUr ijn])
    moreover have "L ! i ! j = col_min nb (p' ! i) j"
      unfolding L_def using il old_cells rowsL p'_old p'_new
      by (auto simp: nth_fold_set_cell [OF okLr ijn])
    moreover have "refresh_errors m U L (errors_base cs) ! i ! j = fl_sub (U ! i ! j) (L ! i ! j)"
      using that by (simp add: nth_refresh_errors [OF okU' okL' okE mn ijn])
    ultimately show ?thesis by simp
  qed
  have "status_ok v W p' cs'"
    unfolding status_ok_def using okU' okL' okE' nb cells mn
    by (simp add: cs'_def m_def n_def)
  then show ?thesis using run by (auto simp: cs'_def new_def)
qed

section \<open>Partitions\<close>

lemma partition_ok_indexable: "partition_ok v p \<Longrightarrow> indexable v p"
  by (auto simp: partition_ok_def indexable_def list_all_iff)

lemma partition_ok_length_concat: "partition_ok v p \<Longrightarrow> length (concat p) = v"
  using distinct_card [of "concat p"] by (simp add: partition_ok_def)

lemma length_le_concat: "list_all (\<lambda>X. X \<noteq> []) p \<Longrightarrow> length p \<le> length (concat p)"
proof (induction p)
  case Nil
  then show ?case by simp
next
  case (Cons X p)
  then show ?case by (cases X) auto
qed

lemma partition_ok_length: "partition_ok v p \<Longrightarrow> length p \<le> v"
  using length_le_concat [of p] partition_ok_length_concat [of v p]
  by (simp add: partition_ok_def)

lemma partition_ok_initial: "0 < v \<Longrightarrow> partition_ok v (initial_p v)"
  by (auto simp: partition_ok_def initial_p_def)

lemma split_partition_ok:
  assumes ok: "partition_ok v p" and i: "i < length p"
    and R: "R = filter (\<lambda>x. \<not> P x) (p ! i)" and E: "E = filter P (p ! i)"
    and ne: "R \<noteq> []" "E \<noteq> []"
  shows "partition_ok v (p[i := R] @ [E])"
proof -
  define A where "A = take i p"
  define B where "B = drop (Suc i) p"
  have p: "p = A @ p ! i # B"
    using i by (simp add: A_def B_def id_take_nth_drop)
  have len: "length A = i" using i by (simp add: A_def)
  have upd: "p[i := R] = A @ R # B"
    by (subst p) (simp add: len [symmetric] del: len)
  have "partition_ok v (A @ p ! i # B)" using ok p by simp
  then show ?thesis
    unfolding upd using ne
    by (auto simp: partition_ok_def R E)
qed

lemma partition_ok_nonempty: "partition_ok v p \<Longrightarrow> p \<noteq> []"
  by (simp add: partition_ok_def)

section \<open>Growing the buffers\<close>

lemma resize_ok:
  assumes ok: "status_ok v W p cs"
  shows "\<exists>cs'. resize cs (cs_n cs * 2) = Inr cs' \<and> status_ok v W p cs' \<and>
           cs_n cs' = cs_n cs * 2 \<and> neighbor cs' = neighbor cs \<and>
           (\<forall>i<cs_n cs. \<forall>j<cs_n cs. errors_base cs' ! i ! j = errors_base cs ! i ! j)"
proof -
  define n where "n = cs_n cs"
  define cs' where "cs' = cs\<lparr>cs_n := n * 2,
                  upper_base := paste n (upper_base cs) (full (n * 2) (Fin 0)),
                  lower_base := paste n (lower_base cs) (full (n * 2) PInf),
                  errors_base := paste n (errors_base cs) (full (n * 2) (Fin 0))\<rparr>"
  have run: "resize cs (cs_n cs * 2) = Inr cs'"
    by (simp add: resize_def Let_def cs'_def n_def)
  have okU: "mat_ok n (upper_base cs)" and okL: "mat_ok n (lower_base cs)"
    and okE: "mat_ok n (errors_base cs)" and mn: "length p \<le> n"
    using ok by (simp_all add: status_ok_def n_def)
  have n2: "n \<le> n * 2" by simp
  have cell: "paste n B (full (n * 2) x) ! i ! j = B ! i ! j" if "mat_ok n B" "i < n" "j < n"
    for B x i j
    using that by (simp add: nth_paste [OF that(1) n2])
  have "status_ok v W p cs'"
    unfolding status_ok_def using ok mn okU okL okE
    by (simp add: cs'_def mat_ok_paste cell status_ok_def n_def [symmetric])
  then show ?thesis
    using run okE by (auto simp: cs'_def cell n_def [symmetric])
qed

lemma grow_ok:
  assumes ok: "state_ok v W s"
  shows "\<exists>s'. grow s = Inr s' \<and> state_ok v W s' \<and> qs_p s' = qs_p s \<and>
           length (qs_p s') < cs_n (color_status_out s') \<and>
           neighbor (color_status_out s') = neighbor (color_status_out s) \<and>
           neighbor (color_status_in s') = neighbor (color_status_in s) \<and>
           (\<forall>i<length (qs_p s). \<forall>j<length (qs_p s).
              errors_base (color_status_out s') ! i ! j = errors_base (color_status_out s) ! i ! j \<and>
              errors_base (color_status_in s') ! i ! j = errors_base (color_status_in s) ! i ! j)"
proof (cases "length (qs_p s) = cs_n (color_status_in s)")
  case True
  from ok have o: "status_ok v W (qs_p s) (color_status_out s)"
    and i: "status_ok v (transpose_w W) (qs_p s) (color_status_in s)"
    and eq: "cs_n (color_status_out s) = cs_n (color_status_in s)"
    by (simp_all add: state_ok_def)
  from ok have pos: "0 < length (qs_p s)"
    by (simp add: state_ok_def partition_ok_def)
  from resize_ok [OF o] obtain out' where out': "resize (color_status_out s) (cs_n (color_status_out s) * 2) = Inr out'"
    "status_ok v W (qs_p s) out'" "cs_n out' = cs_n (color_status_out s) * 2"
    "neighbor out' = neighbor (color_status_out s)"
    "\<forall>i<cs_n (color_status_out s). \<forall>j<cs_n (color_status_out s).
        errors_base out' ! i ! j = errors_base (color_status_out s) ! i ! j"
    by blast
  from resize_ok [OF i] obtain in' where in': "resize (color_status_in s) (cs_n (color_status_in s) * 2) = Inr in'"
    "status_ok v (transpose_w W) (qs_p s) in'" "cs_n in' = cs_n (color_status_in s) * 2"
    "neighbor in' = neighbor (color_status_in s)"
    "\<forall>i<cs_n (color_status_in s). \<forall>j<cs_n (color_status_in s).
        errors_base in' ! i ! j = errors_base (color_status_in s) ! i ! j"
    by blast
  have "grow s = Inr (s\<lparr>color_status_out := out', color_status_in := in'\<rparr>)"
    using True out'(1) in'(1) by (simp add: grow_def)
  moreover have "state_ok v W (s\<lparr>color_status_out := out', color_status_in := in'\<rparr>)"
    using ok out'(2,3) in'(2,3) eq by (simp add: state_ok_def)
  ultimately show ?thesis
    using True eq pos out'(3,4,5) in'(3,4,5) by simp
next
  case False
  moreover have "length (qs_p s) \<le> cs_n (color_status_in s)"
    and "cs_n (color_status_out s) = cs_n (color_status_in s)"
    using ok by (simp_all add: state_ok_def status_ok_def)
  ultimately show ?thesis using ok by (simp add: grow_def)
qed

section \<open>The witness of a status\<close>

lemma argmax_from_spec:
  assumes "length pre = k" "bi < k" "pre ! bi = bv" "\<forall>t<k. pre ! t \<le> bv" "\<forall>t<bi. pre ! t < bv"
  shows "argmax_from (map Fin xs) k bi (Fin bv) < length (pre @ xs) \<and>
         (\<forall>t<length (pre @ xs). (pre @ xs) ! t \<le> (pre @ xs) ! argmax_from (map Fin xs) k bi (Fin bv)) \<and>
         (\<forall>t<argmax_from (map Fin xs) k bi (Fin bv).
            (pre @ xs) ! t < (pre @ xs) ! argmax_from (map Fin xs) k bi (Fin bv))"
  using assms
proof (induction xs arbitrary: pre k bi bv)
  case Nil
  then show ?case by simp
next
  case (Cons x xs)
  show ?case
  proof (cases "bv < x")
    case True
    have "argmax_from (map Fin (x # xs)) k bi (Fin bv) = argmax_from (map Fin xs) (Suc k) k (Fin x)"
      using True by (simp add: greater_or_nan_def)
    moreover have "length (pre @ [x]) = Suc k" "k < Suc k" "(pre @ [x]) ! k = x"
      using Cons.prems(1) by (simp_all add: nth_append)
    moreover have "\<forall>t<Suc k. (pre @ [x]) ! t \<le> x"
      using Cons.prems(1,4) True by (auto simp: nth_append less_Suc_eq intro: order_trans less_imp_le)
    moreover have "\<forall>t<k. (pre @ [x]) ! t < x"
      using Cons.prems(1,4) True by (auto simp: nth_append intro: le_less_trans)
    ultimately show ?thesis
      using Cons.IH [of "pre @ [x]" "Suc k" k x] by simp
  next
    case False
    have "argmax_from (map Fin (x # xs)) k bi (Fin bv) = argmax_from (map Fin xs) (Suc k) bi (Fin bv)"
      using False by (simp add: greater_or_nan_def)
    moreover have "length (pre @ [x]) = Suc k" "bi < Suc k" "(pre @ [x]) ! bi = bv"
      using Cons.prems(1,2,3) by (simp_all add: nth_append)
    moreover have "\<forall>t<Suc k. (pre @ [x]) ! t \<le> bv"
      using Cons.prems(1,4) False by (auto simp: nth_append less_Suc_eq)
    moreover have "\<forall>t<bi. (pre @ [x]) ! t < bv"
      using Cons.prems(1,2,5) by (auto simp: nth_append)
    ultimately show ?thesis
      using Cons.IH [of "pre @ [x]" "Suc k" bi bv] by simp
  qed
qed

lemma argmax_spec:
  assumes "rs \<noteq> []"
  shows "argmax (map Fin rs) < length rs \<and>
         (\<forall>t<length rs. rs ! t \<le> rs ! argmax (map Fin rs)) \<and>
         (\<forall>t<argmax (map Fin rs). rs ! t < rs ! argmax (map Fin rs))"
proof -
  obtain x xs where rs: "rs = x # xs" using assms by (cases rs) auto
  show ?thesis
    using argmax_from_spec [of "[x]" 1 0 x xs] by (simp add: rs)
qed

lemma length_concat_table:
  "length (concat (map (\<lambda>i. map (f i) [0..<m]) [0..<k])) = k * m"
  by (induction k) simp_all

lemma nth_concat_table:
  "t < k * m \<Longrightarrow> concat (map (\<lambda>i. map (f i) [0..<m]) [0..<k]) ! t = f (t div m) (t mod m)"
proof (induction k)
  case 0
  then show ?case by simp
next
  case (Suc k)
  show ?case
  proof (cases "t < k * m")
    case True
    then show ?thesis using Suc.IH by (simp add: nth_append length_concat_table)
  next
    case False
    then have le: "k * m \<le> t" by simp
    have lt: "t - k * m < m" using Suc.prems le by simp
    have "t = k * m + (t - k * m)" using le by simp
    then have d: "t div m = k" and r: "t mod m = t - k * m"
      using lt by (metis div_mult_self3 div_less add.right_neutral less_nat_zero_code mult.commute not_gr_zero,
                   metis mod_mult_self3 mod_less mult.commute)
    show ?thesis using False lt by (simp add: nth_append length_concat_table d r)
  qed
qed

lemma status_ok_cell:
  assumes "status_ok v W p cs" "i < length p" "j < length p"
  shows "errors_base cs ! i ! j = Fin (spread (neighbor cs) (p ! i) j)"
    and "upper_base cs ! i ! j = col_max (neighbor cs) (p ! i) j"
    and "lower_base cs ! i ! j = col_min (neighbor cs) (p ! i) j"
  using assms by (simp_all add: status_ok_def spread_def col_max_def col_min_def)

lemma status_ok_flat:
  assumes ok: "status_ok v W p cs"
  shows "concat (block (length p) (errors_base cs)) =
         map Fin (concat (map (\<lambda>i. map (\<lambda>j. spread (neighbor cs) (p ! i) j) [0..<length p])
                            [0..<length p]))"
proof -
  have n: "length p \<le> cs_n cs" and okE: "mat_ok (cs_n cs) (errors_base cs)"
    using ok by (simp_all add: status_ok_def)
  have "block (length p) (errors_base cs) =
        map (\<lambda>i. map (\<lambda>j. Fin (spread (neighbor cs) (p ! i) j)) [0..<length p]) [0..<length p]"
    using n okE status_ok_cell(1) [OF ok]
    by (auto simp: block_def mat_ok_length mat_ok_row intro!: nth_equalityI)
  then show ?thesis by (simp add: map_concat comp_def)
qed

lemma div_mod_less:
  fixes t m :: nat
  assumes "t < m * m"
  shows "t div m < m" and "t mod m < m"
proof -
  have m: "0 < m" using assms by (cases m) auto
  show "t mod m < m" using m by simp
  show "t div m < m" using assms m by (simp add: less_mult_imp_div_less)
qed

lemma pick_witness_ok:
  assumes ok: "status_ok v W p cs" and pok: "partition_ok v p"
  shows "\<exists>i j. i < length p \<and> j < length p \<and>
           pick_witness p cs =
             Inr (i, j, mean (map (\<lambda>x. neighbor cs ! x ! j) (p ! i)),
                  Fin (spread (neighbor cs) (p ! i) j)) \<and>
           (\<forall>i'<length p. \<forall>j'<length p.
              spread (neighbor cs) (p ! i') j' \<le> spread (neighbor cs) (p ! i) j) \<and>
           (\<forall>i'<length p. \<forall>j'<length p. i' * length p + j' < i * length p + j \<longrightarrow>
              spread (neighbor cs) (p ! i') j' < spread (neighbor cs) (p ! i) j)"
proof -
  define m where "m = length p"
  define f where "f = (\<lambda>i j. spread (neighbor cs) (p ! i) j)"
  define rs where "rs = concat (map (\<lambda>i. map (f i) [0..<m]) [0..<m])"
  define t where "t = argmax (map Fin rs)"
  have m: "0 < m" using pok by (simp add: m_def partition_ok_def)
  have flat: "concat (block m (errors_base cs)) = map Fin rs"
    unfolding m_def rs_def f_def by (rule status_ok_flat [OF ok])
  have len: "length rs = m * m" by (simp add: rs_def length_concat_table)
  then have ne: "rs \<noteq> []" using m by auto
  have nth: "rs ! k = f (k div m) (k mod m)" if "k < m * m" for k
    unfolding rs_def using that by (rule nth_concat_table)
  have at: "(i * m + j) div m = i \<and> (i * m + j) mod m = j \<and> i * m + j < m * m"
    if "i < m" "j < m" for i j
  proof -
    have "i * m + j < i * m + m" using that by simp
    also have "\<dots> = Suc i * m" by simp
    also have "\<dots> \<le> m * m" using that by (metis Suc_leI mult_le_mono1)
    finally show ?thesis using that by simp
  qed
  from argmax_spec [OF ne] have t: "t < m * m" and tmax: "\<forall>k<m * m. rs ! k \<le> rs ! t"
    and tfirst: "\<forall>k<t. rs ! k < rs ! t"
    by (simp_all add: t_def len)
  define i where "i = t div m"
  define j where "j = t mod m"
  have ij: "i < m" "j < m" using div_mod_less [OF t] by (simp_all add: i_def j_def)
  have tij: "t = i * m + j" by (simp add: i_def j_def)
  have rt: "rs ! t = f i j" using nth [OF t] by (simp add: i_def j_def)
  have n: "m \<le> cs_n cs" and okE: "mat_ok (cs_n cs) (errors_base cs)"
    and nb: "neighbor cs = neighbor_of v W p"
    using ok by (simp_all add: status_ok_def m_def)
  have guard: "i < length (errors_base cs) \<and> j < length (errors_base cs ! i) \<and>
               list_all (\<lambda>x. x < length (neighbor cs) \<and> j < length (neighbor cs ! x)) (p ! i)"
    using ij n okE indexable_nth [OF partition_ok_indexable [OF pok], of i]
    by (auto simp: mat_ok_length mat_ok_row nb neighbor_of_def m_def list_all_iff)
  have "pick_witness p cs = Inr (i, j, mean (map (\<lambda>x. neighbor cs ! x ! j) (p ! i)), Fin (f i j))"
    unfolding pick_witness_def Let_def m_def [symmetric] flat t_def [symmetric]
      i_def [symmetric] j_def [symmetric]
    using ne guard status_ok_cell(1) [OF ok, of i j] ij
    by (simp add: f_def m_def)
  moreover have "f i' j' \<le> f i j" if "i' < m" "j' < m" for i' j'
    using tmax at [OF that] nth [of "i' * m + j'"] rt by auto
  moreover have "f i' j' < f i j" if "i' < m" "j' < m" "i' * m + j' < i * m + j" for i' j'
    using tfirst at [OF that(1,2)] nth [of "i' * m + j'"] rt that(3) tij by auto
  ultimately show ?thesis
    using ij unfolding f_def m_def by blast
qed

section \<open>Maxima, minima and the sides of a split\<close>

lemma tensor_max_ge: "x \<in> set xs \<Longrightarrow> x \<le> tensor_max xs"
  by (induction xs rule: tensor_max.induct) auto

lemma tensor_min_le: "x \<in> set xs \<Longrightarrow> tensor_min xs \<le> x"
  by (induction xs rule: tensor_min.induct) auto

lemma tensor_max_mem: "xs \<noteq> [] \<Longrightarrow> tensor_max xs \<in> set xs"
  by (induction xs rule: tensor_max.induct) (auto simp: max_def)

lemma tensor_min_mem: "xs \<noteq> [] \<Longrightarrow> tensor_min xs \<in> set xs"
  by (induction xs rule: tensor_min.induct) (auto simp: min_def)



lemma split_color_result:
  assumes "wi < length p"
    and "list_all (\<lambda>x. x < length (neighbor cs) \<and> wj < length (neighbor cs ! x)) (p ! wi)"
  shows "split_color p cs wi wj thr =
         (if filter (\<lambda>x. \<not> fl_less thr (Fin (neighbor cs ! x ! wj))) (p ! wi) = [] \<or>
             filter (\<lambda>x. fl_less thr (Fin (neighbor cs ! x ! wj))) (p ! wi) = []
          then Raised AssertionError p
          else Ok (p[wi := filter (\<lambda>x. \<not> fl_less thr (Fin (neighbor cs ! x ! wj))) (p ! wi)] @
                   [filter (\<lambda>x. fl_less thr (Fin (neighbor cs ! x ! wj))) (p ! wi)]))"
  using assms by (simp add: split_color_def Let_def)

lemma split_color_Ok:
  assumes "split_color p cs wi wj thr = Ok p'"
  shows "wi < length p \<and>
         filter (\<lambda>x. \<not> fl_less thr (Fin (neighbor cs ! x ! wj))) (p ! wi) \<noteq> [] \<and>
         filter (\<lambda>x. fl_less thr (Fin (neighbor cs ! x ! wj))) (p ! wi) \<noteq> [] \<and>
         p' = p[wi := filter (\<lambda>x. \<not> fl_less thr (Fin (neighbor cs ! x ! wj))) (p ! wi)] @
                [filter (\<lambda>x. fl_less thr (Fin (neighbor cs ! x ! wj))) (p ! wi)]"
  using assms by (auto simp: split_color_def Let_def split: if_splits)

lemma split_color_partition_ok:
  assumes "split_color p cs wi wj thr = Ok p'" "partition_ok v p"
  shows "partition_ok v p'"
  using split_color_Ok [OF assms(1)]
    split_partition_ok [OF assms(2), of wi _ "\<lambda>x. fl_less thr (Fin (neighbor cs ! x ! wj))"]
  by simp

lemma split_and_update_ok:
  assumes ok: "state_ok v W s" and room: "length (qs_p s) < cs_n (color_status_out s)"
    and split: "split_color (qs_p s) cs wi wj thr = Ok p'"
  shows "\<exists>out' in'.
           update_status v p' (color_status_out s) W wi (length p' - 1) = Inr out' \<and>
           update_status v p' (color_status_in s) (transpose_w W) wi (length p' - 1) = Inr in' \<and>
           split_and_update v W s cs wi wj thr =
             Continue \<lparr>qs_p = p', color_status_out = out', color_status_in = in'\<rparr> \<and>
           state_ok v W \<lparr>qs_p = p', color_status_out = out', color_status_in = in'\<rparr>"
proof -
  from ok have pok: "partition_ok v (qs_p s)"
    and o: "status_ok v W (qs_p s) (color_status_out s)"
    and i: "status_ok v (transpose_w W) (qs_p s) (color_status_in s)"
    and eq: "cs_n (color_status_out s) = cs_n (color_status_in s)"
    by (simp_all add: state_ok_def)
  from split_color_Ok [OF split] obtain R E where wi: "wi < length (qs_p s)"
    and p': "p' = (qs_p s)[wi := R] @ [E]"
    by blast
  have pok': "partition_ok v p'" by (rule split_color_partition_ok [OF split pok])
  then have ix: "indexable v p'" by (rule partition_ok_indexable)
  have new: "length p' - 1 = length (qs_p s)" by (simp add: p')
  from update_status_ok [OF o room wi p' ix] obtain out' where
    out': "update_status v p' (color_status_out s) W wi (length (qs_p s)) = Inr out'"
      "status_ok v W p' out'" "cs_n out' = cs_n (color_status_out s)"
    by blast
  from update_status_ok [OF i _ wi p' ix] room eq obtain in' where
    in': "update_status v p' (color_status_in s) (transpose_w W) wi (length (qs_p s)) = Inr in'"
      "status_ok v (transpose_w W) p' in'" "cs_n in' = cs_n (color_status_in s)"
    by auto
  have "split_and_update v W s cs wi wj thr =
          Continue \<lparr>qs_p = p', color_status_out = out', color_status_in = in'\<rparr>"
    using split out'(1) in'(1) new by (simp add: split_and_update_def)
  moreover have "state_ok v W \<lparr>qs_p = p', color_status_out = out', color_status_in = in'\<rparr>"
    using pok' out'(2,3) in'(2,3) eq by (simp add: state_ok_def)
  ultimately show ?thesis using out'(1) in'(1) new by simp
qed

section \<open>The states of a run\<close>

lemma init_status_Inr:
  assumes "init_status v p cs W = Inr cs'"
  shows "indexable v p \<and> length (concat p) \<le> v \<and> length p \<le> cs_n cs"
  using assms by (auto simp: init_status_def Let_def split: if_splits)

lemma ColorStatus_init_ok:
  "mat_ok (cs_n (ColorStatus_init v n)) (upper_base (ColorStatus_init v n)) \<and>
   mat_ok (cs_n (ColorStatus_init v n)) (lower_base (ColorStatus_init v n)) \<and>
   mat_ok (cs_n (ColorStatus_init v n)) (errors_base (ColorStatus_init v n)) \<and>
   cs_n (ColorStatus_init v n) = n"
  by (simp add: ColorStatus_init_def mat_ok_full)

lemma init_status_fresh_ok:
  assumes "init_status v p (ColorStatus_init v n) W = Inr cs'"
  shows "status_ok v W p cs' \<and> cs_n cs' = n"
  using init_status_ok [of v p "ColorStatus_init v n" W] init_status_Inr [OF assms] assms
    ColorStatus_init_ok [of v n]
  by auto

lemma q_init_ok:
  assumes "q_init G n_colors = Inr s"
  shows "state_ok (num_nodes G) (adj_t G) s \<and> qs_p s = initial_p (num_nodes G) \<and>
         0 < num_nodes G"
proof -
  from assms obtain n out inn where n: "capacity n_colors = Inr n"
    and out: "init_status (num_nodes G) (initial_p (num_nodes G))
                (ColorStatus_init (num_nodes G) n) (adj_t G) = Inr out"
    and inn: "init_status (num_nodes G) (initial_p (num_nodes G))
                (ColorStatus_init (num_nodes G) n) (transpose_w (adj_t G)) = Inr inn"
    and s: "s = \<lparr>qs_p = initial_p (num_nodes G), color_status_out = out, color_status_in = inn\<rparr>"
    by (auto simp: q_init_def Let_def split: sum.splits)
  have "indexable (num_nodes G) (initial_p (num_nodes G))"
    using init_status_Inr [OF out] by simp
  then have pos: "0 < num_nodes G"
    by (simp add: indexable_def initial_p_def)
  show ?thesis
    using init_status_fresh_ok [OF out] init_status_fresh_ok [OF inn] pos
    by (simp add: s state_ok_def partition_ok_initial)
qed

text \<open>What one pass through the loop body does in a sound state: the buffers grow if
  they must, both witnesses are found, and the body breaks or goes on to split.\<close>

lemma loop_body_cases:
  assumes ok: "state_ok v W s"
  shows "\<exists>s1 oi oj ii ij.
           grow s = Inr s1 \<and> state_ok v W s1 \<and> qs_p s1 = qs_p s \<and>
           length (qs_p s1) < cs_n (color_status_out s1) \<and>
           oi < length (qs_p s) \<and> oj < length (qs_p s) \<and>
           ii < length (qs_p s) \<and> ij < length (qs_p s) \<and>
           pick_witness (qs_p s1) (color_status_out s1) =
             Inr (oi, oj, mean (map (\<lambda>x. neighbor (color_status_out s1) ! x ! oj) (qs_p s ! oi)),
                  Fin (spread (neighbor (color_status_out s1)) (qs_p s ! oi) oj)) \<and>
           pick_witness (qs_p s1) (color_status_in s1) =
             Inr (ii, ij, mean (map (\<lambda>x. neighbor (color_status_in s1) ! x ! ij) (qs_p s ! ii)),
                  Fin (spread (neighbor (color_status_in s1)) (qs_p s ! ii) ij)) \<and>
           loop_body v W q_errors s =
             (if fl_le (Fin (spread (neighbor (color_status_in s1)) (qs_p s ! ii) ij)) q_errors \<and>
                 fl_le (Fin (spread (neighbor (color_status_out s1)) (qs_p s ! oi) oj)) q_errors
              then Break s1
              else if spread (neighbor (color_status_in s1)) (qs_p s ! ii) ij
                      \<le> spread (neighbor (color_status_out s1)) (qs_p s ! oi) oj
              then split_and_update v W s1 (color_status_out s1) oi oj
                     (mean (map (\<lambda>x. neighbor (color_status_out s1) ! x ! oj) (qs_p s ! oi)))
              else split_and_update v W s1 (color_status_in s1) ii ij
                     (mean (map (\<lambda>x. neighbor (color_status_in s1) ! x ! ij) (qs_p s ! ii))))"
proof -
  from grow_ok [OF ok] obtain s1 where s1: "grow s = Inr s1" "state_ok v W s1"
    "qs_p s1 = qs_p s" "length (qs_p s1) < cs_n (color_status_out s1)"
    by blast
  from s1(2) have pok: "partition_ok v (qs_p s1)"
    and o: "status_ok v W (qs_p s1) (color_status_out s1)"
    and i: "status_ok v (transpose_w W) (qs_p s1) (color_status_in s1)"
    by (simp_all add: state_ok_def)
  from pick_witness_ok [OF o pok] obtain oi oj where
    out: "oi < length (qs_p s1)" "oj < length (qs_p s1)"
      "pick_witness (qs_p s1) (color_status_out s1) =
         Inr (oi, oj, mean (map (\<lambda>x. neighbor (color_status_out s1) ! x ! oj) (qs_p s1 ! oi)),
              Fin (spread (neighbor (color_status_out s1)) (qs_p s1 ! oi) oj))"
    by blast
  from pick_witness_ok [OF i pok] obtain ii ij where
    inn: "ii < length (qs_p s1)" "ij < length (qs_p s1)"
      "pick_witness (qs_p s1) (color_status_in s1) =
         Inr (ii, ij, mean (map (\<lambda>x. neighbor (color_status_in s1) ! x ! ij) (qs_p s1 ! ii)),
              Fin (spread (neighbor (color_status_in s1)) (qs_p s1 ! ii) ij))"
    by blast
  have "loop_body v W q_errors s =
             (if fl_le (Fin (spread (neighbor (color_status_in s1)) (qs_p s ! ii) ij)) q_errors \<and>
                 fl_le (Fin (spread (neighbor (color_status_out s1)) (qs_p s ! oi) oj)) q_errors
              then Break s1
              else if spread (neighbor (color_status_in s1)) (qs_p s ! ii) ij
                      \<le> spread (neighbor (color_status_out s1)) (qs_p s ! oi) oj
              then split_and_update v W s1 (color_status_out s1) oi oj
                     (mean (map (\<lambda>x. neighbor (color_status_out s1) ! x ! oj) (qs_p s ! oi)))
              else split_and_update v W s1 (color_status_in s1) ii ij
                     (mean (map (\<lambda>x. neighbor (color_status_in s1) ! x ! ij) (qs_p s ! ii))))"
    using s1(1) out(3) inn(3)
    by (simp add: loop_body_def s1(3) fl_ge_def fl_le_def le_less)
  then have "grow s = Inr s1 \<and> state_ok v W s1 \<and> qs_p s1 = qs_p s \<and>
           length (qs_p s1) < cs_n (color_status_out s1) \<and>
           oi < length (qs_p s) \<and> oj < length (qs_p s) \<and>
           ii < length (qs_p s) \<and> ij < length (qs_p s) \<and>
           pick_witness (qs_p s1) (color_status_out s1) =
             Inr (oi, oj, mean (map (\<lambda>x. neighbor (color_status_out s1) ! x ! oj) (qs_p s ! oi)),
                  Fin (spread (neighbor (color_status_out s1)) (qs_p s ! oi) oj)) \<and>
           pick_witness (qs_p s1) (color_status_in s1) =
             Inr (ii, ij, mean (map (\<lambda>x. neighbor (color_status_in s1) ! x ! ij) (qs_p s ! ii)),
                  Fin (spread (neighbor (color_status_in s1)) (qs_p s ! ii) ij)) \<and>
           loop_body v W q_errors s =
             (if fl_le (Fin (spread (neighbor (color_status_in s1)) (qs_p s ! ii) ij)) q_errors \<and>
                 fl_le (Fin (spread (neighbor (color_status_out s1)) (qs_p s ! oi) oj)) q_errors
              then Break s1
              else if spread (neighbor (color_status_in s1)) (qs_p s ! ii) ij
                      \<le> spread (neighbor (color_status_out s1)) (qs_p s ! oi) oj
              then split_and_update v W s1 (color_status_out s1) oi oj
                     (mean (map (\<lambda>x. neighbor (color_status_out s1) ! x ! oj) (qs_p s ! oi)))
              else split_and_update v W s1 (color_status_in s1) ii ij
                     (mean (map (\<lambda>x. neighbor (color_status_in s1) ! x ! ij) (qs_p s ! ii))))"
    using s1 out inn by (simp add: s1(3))
  then show ?thesis by blast
qed

lemma loop_body_Continue_ok:
  assumes ok: "state_ok v W s" and step: "loop_body v W q_errors s = Continue s'"
  shows "state_ok v W s' \<and> length (qs_p s') = Suc (length (qs_p s))"
proof -
  from loop_body_cases [OF ok, of q_errors] obtain s1 cs wi wj thr where
    s1: "state_ok v W s1" "qs_p s1 = qs_p s" "length (qs_p s1) < cs_n (color_status_out s1)"
    and body: "split_and_update v W s1 cs wi wj thr = Continue s'"
    using step by (metis step.distinct(1))
  from body obtain p' where split: "split_color (qs_p s1) cs wi wj thr = Ok p'"
    by (auto simp: split_and_update_def split: outcome.splits)
  from split_and_update_ok [OF s1(1,3) split] body
  have "state_ok v W s'" and "qs_p s' = p'" by auto
  moreover have "length p' = Suc (length (qs_p s))"
    using split_color_Ok [OF split] by (simp add: s1(2))
  ultimately show ?thesis by simp
qed

lemma reachable_state_ok:
  assumes "reachable G n_colors q_errors s"
  shows "state_ok (num_nodes G) (adj_t G) s"
  using assms
proof (induction rule: reachable.induct)
  case (initial s)
  then show ?case by (simp add: q_init_ok)
next
  case (grown s s')
  then show ?case using grow_ok [of "num_nodes G" "adj_t G" s] by auto
next
  case (iteration s s')
  then show ?case using loop_body_Continue_ok by blast
qed

section \<open>The partition in the words of the specification\<close>

lemma partition_ok_is_partition:
  assumes "partition_ok v p"
  shows "is_partition v p"
proof -
  from assms have ne: "list_all (\<lambda>X. X \<noteq> []) p" and d: "distinct (concat p)"
    and u: "set (concat p) = {..<v}"
    by (simp_all add: partition_ok_def)
  have no_empty: "[] \<notin> set p" using ne by (auto simp: list_all_iff)
  then have dp: "distinct p" using d by (simp add: distinct_concat_iff)
  have "set (p ! i) \<inter> set (p ! j) = {}" if "i < length p" "j < length p" "i \<noteq> j" for i j
  proof -
    have "p ! i \<noteq> p ! j" using dp that by (simp add: nth_eq_iff_index_eq)
    then show ?thesis using d that by (simp add: distinct_concat_iff)
  qed
  moreover have "p ! i \<noteq> [] \<and> distinct (p ! i)" if "i < length p" for i
    using that d no_empty by (auto simp: distinct_concat_iff dest: nth_mem)
  ultimately show ?thesis using u by (simp add: is_partition_def)
qed

lemma is_partition_partition_ok:
  assumes "is_partition v p" "0 < v"
  shows "partition_ok v p"
proof -
  from assms(1) have ne: "\<And>i. i < length p \<Longrightarrow> p ! i \<noteq> [] \<and> distinct (p ! i)"
    and dj: "\<And>i j. i < length p \<Longrightarrow> j < length p \<Longrightarrow> i \<noteq> j \<Longrightarrow> set (p ! i) \<inter> set (p ! j) = {}"
    and u: "(\<Union>X\<in>set p. set X) = {..<v}"
    by (simp_all add: is_partition_def)
  have "p \<noteq> []" using u assms(2) by auto
  moreover have all_ne: "list_all (\<lambda>X. X \<noteq> []) p" using ne by (simp add: list_all_length)
  moreover have "distinct (concat p)"
  proof (rule distinct_concat)
    show "distinct p"
    proof (unfold distinct_conv_nth, intro allI impI)
      fix i j assume ij: "i < length p" "j < length p" "i \<noteq> j"
      from dj [OF ij] ne [OF ij(1)] show "p ! i \<noteq> p ! j" by auto
    qed
    show "distinct ys" if "ys \<in> set p" for ys
      using that ne by (auto simp: in_set_conv_nth)
    show "set ys \<inter> set zs = {}" if "ys \<in> set p" "zs \<in> set p" "ys \<noteq> zs" for ys zs
    proof -
      from that obtain i j where "i < length p" "j < length p" "ys = p ! i" "zs = p ! j" "i \<noteq> j"
        by (auto simp: in_set_conv_nth)
      then show ?thesis using dj by simp
    qed
  qed
  moreover have "set (concat p) = {..<v}" using u by simp
  ultimately show ?thesis by (simp add: partition_ok_def)
qed

section \<open>Update against initialisation\<close>

lemma block_eqI:
  assumes "mat_ok n A" "mat_ok n' B" "m \<le> n" "m \<le> n'"
    and "\<And>i j. i < m \<Longrightarrow> j < m \<Longrightarrow> A ! i ! j = B ! i ! j"
  shows "block m A = block m B"
  using assms
  by (auto simp: block_def mat_ok_length mat_ok_row intro!: nth_equalityI)

lemma status_ok_agree:
  assumes a: "status_ok v W p a" and b: "status_ok v W p b"
  shows "neighbor a = neighbor b \<and>
         block (length p) (upper_base a) = block (length p) (upper_base b) \<and>
         block (length p) (lower_base a) = block (length p) (lower_base b) \<and>
         block (length p) (errors_base a) = block (length p) (errors_base b)"
proof -
  have nb: "neighbor a = neighbor b" using a b by (simp add: status_ok_def)
  have shape: "mat_ok (cs_n a) (upper_base a)" "mat_ok (cs_n a) (lower_base a)"
    "mat_ok (cs_n a) (errors_base a)" "length p \<le> cs_n a"
    "mat_ok (cs_n b) (upper_base b)" "mat_ok (cs_n b) (lower_base b)"
    "mat_ok (cs_n b) (errors_base b)" "length p \<le> cs_n b"
    using a b by (simp_all add: status_ok_def)
  have "block (length p) (upper_base a) = block (length p) (upper_base b)"
    by (rule block_eqI [OF shape(1,5,4,8)])
       (simp add: status_ok_cell(2) [OF a] status_ok_cell(2) [OF b] nb)
  moreover have "block (length p) (lower_base a) = block (length p) (lower_base b)"
    by (rule block_eqI [OF shape(2,6,4,8)])
       (simp add: status_ok_cell(3) [OF a] status_ok_cell(3) [OF b] nb)
  moreover have "block (length p) (errors_base a) = block (length p) (errors_base b)"
    by (rule block_eqI [OF shape(3,7,4,8)])
       (simp add: status_ok_cell(1) [OF a] status_ok_cell(1) [OF b] nb)
  ultimately show ?thesis using nb by simp
qed

lemma update_agrees_with_init:
  assumes ok: "status_ok v W p cs" and room: "length p < cs_n cs" and pok: "partition_ok v p"
    and split: "split_color p cs0 old wj thr = Ok p'"
  shows "\<exists>cs' fresh.
           update_status v p' cs W old (length p' - 1) = Inr cs' \<and>
           init_status v p' (ColorStatus_init v (cs_n cs)) W = Inr fresh \<and>
           neighbor cs' = neighbor fresh \<and>
           block (length p') (upper_base cs') = block (length p') (upper_base fresh) \<and>
           block (length p') (lower_base cs') = block (length p') (lower_base fresh) \<and>
           block (length p') (errors_base cs') = block (length p') (errors_base fresh)"
proof -
  from split_color_Ok [OF split] obtain R E where old: "old < length p"
    and p': "p' = p[old := R] @ [E]"
    by blast
  have pok': "partition_ok v p'" by (rule split_color_partition_ok [OF split pok])
  then have ix: "indexable v p'" by (rule partition_ok_indexable)
  have new: "length p' - 1 = length p" by (simp add: p')
  from update_status_ok [OF ok room old p' ix] obtain cs' where
    cs': "update_status v p' cs W old (length p) = Inr cs'" "status_ok v W p' cs'"
    by blast
  have len: "length p' \<le> cs_n (ColorStatus_init v (cs_n cs))"
    using room by (simp add: p' ColorStatus_init_def)
  from init_status_ok [OF ix _ len, of W] partition_ok_length_concat [OF pok']
    ColorStatus_init_ok [of v "cs_n cs"]
  obtain fresh where
    fresh: "init_status v p' (ColorStatus_init v (cs_n cs)) W = Inr fresh" "status_ok v W p' fresh"
    by auto
  show ?thesis
    using cs'(1) fresh(1) status_ok_agree [OF cs'(2) fresh(2)] new by simp
qed

section \<open>Failure of a split\<close>

lemma split_color_sides:
  assumes "wi < length p"
    and "list_all (\<lambda>x. x < length (neighbor cs) \<and> wj < length (neighbor cs ! x)) (p ! wi)"
  shows "split_color p cs wi wj thr =
         (if retain_side cs wj thr (p ! wi) = [] \<or> eject_side cs wj thr (p ! wi) = []
          then Raised AssertionError p
          else Ok (p[wi := retain_side cs wj thr (p ! wi)] @ [eject_side cs wj thr (p ! wi)]))"
  using split_color_result [OF assms, of thr]
  by (simp add: retain_side_def eject_side_def)

lemma split_color_Raised:
  "split_color p cs wi wj thr = Raised e p' \<Longrightarrow> p' = p"
  by (auto simp: split_color_def Let_def split: if_splits)

lemma update_status_error:
  "update_status v p cs W old new = Inl e \<Longrightarrow> e = TensorError"
  by (auto simp: update_status_def Let_def split: if_splits)

lemma split_and_update_AssertionError:
  assumes "split_and_update v W s cs wi wj thr = Raise AssertionError s'"
  shows "s' = s"
proof (cases "split_color (qs_p s) cs wi wj thr")
  case (Ok p')
  with assms show ?thesis
    by (auto simp: split_and_update_def split: sum.splits dest: update_status_error)
next
  case (Raised e p')
  with assms split_color_Raised [OF Raised] show ?thesis
    by (simp add: split_and_update_def)
qed

section \<open>Termination of the loop\<close>

lemma q_loop_terminates:
  assumes "state_ok v W s"
  shows "\<exists>r. q_loop v W n_colors q_errors s = Some r"
  using assms
proof (induction "v - length (qs_p s)" arbitrary: s rule: less_induct)
  case less
  show ?case
  proof (cases "below_cap (qs_p s) n_colors")
    case False
    then show ?thesis by (subst q_loop.simps) simp
  next
    case True
    show ?thesis
    proof (cases "loop_body v W q_errors s")
      case (Break s')
      then show ?thesis using True by (subst q_loop.simps) simp
    next
      case (Raise e s')
      then show ?thesis using True by (subst q_loop.simps) simp
    next
      case (Continue s')
      from loop_body_Continue_ok [OF less.prems Continue]
      have ok': "state_ok v W s'" and len: "length (qs_p s') = Suc (length (qs_p s))"
        by simp_all
      have "length (qs_p s') \<le> v"
        using ok' by (simp add: state_ok_def partition_ok_length)
      then have "v - length (qs_p s') < v - length (qs_p s)" using len by simp
      from less.hyps [OF this ok'] obtain r where "q_loop v W n_colors q_errors s' = Some r"
        by blast
      then show ?thesis using True Continue by (subst q_loop.simps) simp
    qed
  qed
qed

lemma q_color_terminates: "\<exists>r. q_color G weighting n_colors q_errors = Some r"
proof (cases "q_init G n_colors")
  case (Inl e)
  then show ?thesis by (simp add: q_color_def)
next
  case (Inr s0)
  from q_loop_terminates [of "num_nodes G" "adj_t G" s0 n_colors q_errors] q_init_ok [OF Inr]
  obtain r where "q_loop (num_nodes G) (adj_t G) n_colors q_errors s0 = Some r" by blast
  then show ?thesis using Inr by (cases r) (simp_all add: q_color_def)
qed

section \<open>Witnesses of grown statuses\<close>

lemma pick_witness_same:
  assumes a: "status_ok v W p a" and b: "status_ok v W p b" and pok: "partition_ok v p"
  shows "pick_witness p a = pick_witness p b"
proof -
  define m where "m = length p"
  have nb: "neighbor b = neighbor a" using a b by (simp add: status_ok_def)
  from pick_witness_ok [OF a pok] obtain i j where A: "i < m" "j < m"
    "pick_witness p a = Inr (i, j, mean (map (\<lambda>x. neighbor a ! x ! j) (p ! i)),
                             Fin (spread (neighbor a) (p ! i) j))"
    "\<forall>i'<m. \<forall>j'<m. spread (neighbor a) (p ! i') j' \<le> spread (neighbor a) (p ! i) j"
    "\<forall>i'<m. \<forall>j'<m. i' * m + j' < i * m + j \<longrightarrow>
        spread (neighbor a) (p ! i') j' < spread (neighbor a) (p ! i) j"
    unfolding m_def by blast
  from pick_witness_ok [OF b pok] obtain k l where B: "k < m" "l < m"
    "pick_witness p b = Inr (k, l, mean (map (\<lambda>x. neighbor a ! x ! l) (p ! k)),
                             Fin (spread (neighbor a) (p ! k) l))"
    "\<forall>i'<m. \<forall>j'<m. spread (neighbor a) (p ! i') j' \<le> spread (neighbor a) (p ! k) l"
    "\<forall>i'<m. \<forall>j'<m. i' * m + j' < k * m + l \<longrightarrow>
        spread (neighbor a) (p ! i') j' < spread (neighbor a) (p ! k) l"
    unfolding m_def nb by blast
  have "\<not> i * m + j < k * m + l" using A(1,2) B(4,5) A(4) B(1,2) by (meson not_le)
  moreover have "\<not> k * m + l < i * m + j" using B(1,2) A(4,5) B(4) A(1,2) by (meson not_le)
  ultimately have eq: "i * m + j = k * m + l" by simp
  have "(i * m + j) div m = i" "(k * m + l) div m = k" "(i * m + j) mod m = j"
    "(k * m + l) mod m = l"
    using A(2) B(2) by simp_all
  with eq have "i = k" "j = l" by metis+
  then show ?thesis using A(3) B(3) by simp
qed

lemma fl_le_not_less: "fl_le a b \<Longrightarrow> \<not> fl_less b a"
  by (cases a; cases b) (auto simp: fl_le_def)

section \<open>The error of a pair after a split\<close>

lemma witness_in_range:
  assumes ok: "status_ok v W p cs" and pok: "partition_ok v p"
    and ij: "i < length p" "j < length p"
  shows "list_all (\<lambda>x. x < length (neighbor cs) \<and> j < length (neighbor cs ! x)) (p ! i)"
  using ok ij indexable_nth [OF partition_ok_indexable [OF pok] ij(1)]
  by (auto simp: status_ok_def neighbor_of_def list_all_iff)

lemma tensor_max_subset:
  assumes "ys \<noteq> []" "set ys \<subseteq> set xs"
  shows "tensor_max ys \<le> tensor_max xs"
  using tensor_max_mem [OF assms(1)] assms(2) by (auto intro: tensor_max_ge)

lemma tensor_min_subset:
  assumes "ys \<noteq> []" "set ys \<subseteq> set xs"
  shows "tensor_min xs \<le> tensor_min ys"
  using tensor_min_mem [OF assms(1)] assms(2) by (auto intro: tensor_min_le)

lemma spread_subset:
  assumes "R \<noteq> []" "set R \<subseteq> set X"
  shows "spread nb R j \<le> spread nb X j"
proof -
  have "map (\<lambda>x. nb ! x ! j) R \<noteq> []" using assms(1) by simp
  moreover have "set (map (\<lambda>x. nb ! x ! j) R) \<subseteq> set (map (\<lambda>x. nb ! x ! j) X)"
    using assms(2) by auto
  ultimately show ?thesis
    using tensor_max_subset tensor_min_subset unfolding spread_def
    by (meson diff_mono)
qed

lemma spread_cong:
  "(\<And>x. x \<in> set X \<Longrightarrow> nb ! x ! j = nb' ! x ! j) \<Longrightarrow> spread nb X j = spread nb' X j"
  by (simp add: spread_def cong: map_cong)

text \<open>The error of a pair \<open>(i, j)\<close> with \<open>j \<noteq> i\<close> does not grow when color \<open>i\<close> is split.\<close>

lemma error_after_split:
  assumes ok: "status_ok v W p cs" and ok': "status_ok v W p' cs'"
    and pok': "partition_ok v p'"
    and p': "p' = p[i := R] @ [E]" and R: "R \<noteq> []" "set R \<subseteq> set (p ! i)"
    and ij: "i < length p" "j < length p" "i \<noteq> j"
  shows "fl_le (errors_base cs' ! i ! j) (errors_base cs ! i ! j)"
proof -
  have i': "i < length p'" and j': "j < length p'" using ij by (simp_all add: p')
  have pi: "p' ! i = R" and pj: "p' ! j = p ! j" using ij by (simp_all add: p' nth_append)
  have same: "neighbor cs' ! x ! j = neighbor cs ! x ! j" if "x \<in> set R" for x
  proof -
    have "x \<in> set (p' ! i)" using that pi by simp
    then have "x < v" by (rule indexable_member [OF partition_ok_indexable [OF pok'] i'])
    then show ?thesis
      using ok ok' ij(2) j' by (simp add: status_ok_def nth_neighbor_of pj)
  qed
  have "errors_base cs' ! i ! j = Fin (spread (neighbor cs') R j)"
    using status_ok_cell(1) [OF ok' i' j'] by (simp add: pi)
  also have "\<dots> = Fin (spread (neighbor cs) R j)"
    using spread_cong [of R "neighbor cs'" j "neighbor cs", OF same] by simp
  finally have "errors_base cs' ! i ! j = Fin (spread (neighbor cs) R j)" .
  moreover have "errors_base cs ! i ! j = Fin (spread (neighbor cs) (p ! i) j)"
    by (rule status_ok_cell(1) [OF ok ij(1,2)])
  ultimately show ?thesis
    using spread_subset [OF R, of "neighbor cs" j] by (simp add: fl_le_def le_less)
qed

section \<open>One iteration of the loop\<close>

lemma iteration_core:
  assumes ok: "state_ok v W s" and g: "grow s = Inr s1"
    and po: "pick_witness (qs_p s1) (color_status_out s1) = Inr (oi, oj, othr, e_out)"
    and pi: "pick_witness (qs_p s1) (color_status_in s1) = Inr (ii, ij, ithr, e_in)"
    and ch: "(cs, i, j, thr) =
               (if fl_less e_out e_in then (color_status_in s1, ii, ij, ithr)
                else (color_status_out s1, oi, oj, othr))"
  shows "state_ok v W s1" and "qs_p s1 = qs_p s"
    and "length (qs_p s1) < cs_n (color_status_out s1)"
    and "i < length (qs_p s)" and "j < length (qs_p s)"
    and "cs = color_status_out s1 \<or> cs = color_status_in s1"
    and "thr = mean (map (\<lambda>x. neighbor cs ! x ! j) (qs_p s ! i))"
    and "loop_body v W q_errors s =
           (if fl_le e_in q_errors \<and> fl_le e_out q_errors then Break s1
            else split_and_update v W s1 cs i j thr)"
    and "fl_ge e_out e_in = (\<not> fl_less e_out e_in)"
proof -
  from loop_body_cases [OF ok, of q_errors] g po pi obtain
    s1: "state_ok v W s1" "qs_p s1 = qs_p s" "length (qs_p s1) < cs_n (color_status_out s1)"
    and bounds: "oi < length (qs_p s)" "oj < length (qs_p s)"
      "ii < length (qs_p s)" "ij < length (qs_p s)"
    and othr: "othr = mean (map (\<lambda>x. neighbor (color_status_out s1) ! x ! oj) (qs_p s ! oi))"
    and e_out: "e_out = Fin (spread (neighbor (color_status_out s1)) (qs_p s ! oi) oj)"
    and ithr: "ithr = mean (map (\<lambda>x. neighbor (color_status_in s1) ! x ! ij) (qs_p s ! ii))"
    and e_in: "e_in = Fin (spread (neighbor (color_status_in s1)) (qs_p s ! ii) ij)"
    and body: "loop_body v W q_errors s =
             (if fl_le e_in q_errors \<and> fl_le e_out q_errors
              then Break s1
              else if spread (neighbor (color_status_in s1)) (qs_p s ! ii) ij
                      \<le> spread (neighbor (color_status_out s1)) (qs_p s ! oi) oj
              then split_and_update v W s1 (color_status_out s1) oi oj othr
              else split_and_update v W s1 (color_status_in s1) ii ij ithr)"
    by auto
  show "state_ok v W s1" "qs_p s1 = qs_p s" "length (qs_p s1) < cs_n (color_status_out s1)"
    by (rule s1)+
  show "i < length (qs_p s)" "j < length (qs_p s)"
    using ch bounds by (auto split: if_splits)
  show "cs = color_status_out s1 \<or> cs = color_status_in s1"
    using ch by (auto split: if_splits)
  show "thr = mean (map (\<lambda>x. neighbor cs ! x ! j) (qs_p s ! i))"
    using ch othr ithr by (auto split: if_splits)
  show "loop_body v W q_errors s =
           (if fl_le e_in q_errors \<and> fl_le e_out q_errors then Break s1
            else split_and_update v W s1 cs i j thr)"
    using ch body by (auto simp: e_out e_in not_le split: if_splits)
  show "fl_ge e_out e_in = (\<not> fl_less e_out e_in)"
    by (auto simp: e_out e_in fl_ge_def fl_le_def)
qed

section \<open>The example runs\<close>

lemma q_init_G3: "q_init G3 (Fin 2) = Inr G3_init"
  by code_simp

lemma loop_body_G3: "loop_body (num_nodes G3) (adj_t G3) (Fin 0) G3_init = Continue G3_split"
  by code_simp

lemma below_cap_G3: "below_cap (qs_p G3_init) (Fin 2)"
  by code_simp

lemma reachable_G3_init: "reachable G3 (Fin 2) (Fin 0) G3_init"
  by (rule reachable.initial [OF q_init_G3])

lemma reachable_G3_split: "reachable G3 (Fin 2) (Fin 0) G3_split"
  by (rule reachable.iteration [OF reachable_G3_init below_cap_G3 loop_body_G3])

lemma grow_G3: "grow G3_init = Inr G3_init"
  by code_simp

lemma split_color_G3:
  "split_color (qs_p G3_init) (color_status_out G3_init) 0 0 (Fin 11) = Ok [[0, 1], [2]]"
  by code_simp

lemma q_init_G2: "q_init G2 (Fin 2) = Inr G2_init"
  by code_simp

lemma pick_witness_G2:
  "pick_witness (qs_p G2_init) (color_status_out G2_init) = Inr (0, 0, Fin 0, Fin 0)"
  "pick_witness (qs_p G2_init) (color_status_in G2_init) = Inr (0, 0, Fin 0, Fin 0)"
  by code_simp+

lemma pick_witness_G3_init:
  "pick_witness (qs_p G3_init) (color_status_out G3_init) = Inr (0, 0, Fin 11, Fin 3)"
  "pick_witness (qs_p G3_init) (color_status_in G3_init) = Inr (0, 0, Fin 11, Fin 3)"
  by code_simp+

lemma sides_G3_init:
  "retain_side (color_status_out G3_init) 0 (Fin 11) (qs_p G3_init ! 0) = [0, 1]"
  "eject_side (color_status_out G3_init) 0 (Fin 11) (qs_p G3_init ! 0) = [2]"
  by code_simp+

lemma q_init_G3_wide: "q_init G3 (Fin 3) = Inr G3_wide_init"
  by code_simp

lemma loop_body_G3_wide:
  "loop_body (num_nodes G3) (adj_t G3) (Fin 0) G3_wide_init = Continue G3_wide_split"
  "loop_body (num_nodes G3) (adj_t G3) (Fin 0) G3_wide_split = Continue G3_wide_next"
  by code_simp+

lemma reachable_G3_wide_split: "reachable G3 (Fin 3) (Fin 0) G3_wide_split"
proof -
  have "below_cap (qs_p G3_wide_init) (Fin 3)" by code_simp
  then show ?thesis
    by (rule reachable.iteration [OF reachable.initial [OF q_init_G3_wide] _ loop_body_G3_wide(1)])
qed

lemma grow_G3_wide: "grow G3_wide_split = Inr G3_wide_split"
  by code_simp

lemma pick_witness_G3_wide:
  "pick_witness (qs_p G3_wide_split) (color_status_out G3_wide_split) = Inr (0, 0, Fin 5, Fin 10)"
  "pick_witness (qs_p G3_wide_split) (color_status_in G3_wide_split) =
     Inr (0, 1, Fin (13 / 2), Fin 13)"
  by code_simp+

section \<open>The claims\<close>

text \<open>C1. In the state in which \<^verbatim>\<open>q_color\<close> splits (a reachable state, after the
  buffers have grown), for every successful split of a color \<open>old\<close> that appends the new
  color, \<^verbatim>\<open>update_status\<close> on either status with that direction's weights returns a
  status whose \<^verbatim>\<open>neighbor\<close> matrix and whose active blocks of \<^verbatim>\<open>upper\<close>, \<^verbatim>\<open>lower\<close> and
  \<^verbatim>\<open>errors\<close> are those that \<^verbatim>\<open>init_status\<close> computes from scratch, on a new status of
  the same capacity, for the updated partition.\<close>

theorem update_status_equals_init_status:
  assumes "reachable G n_colors q_errors s" and "grow s = Inr s1"
    and "split_color (qs_p s1) cs old wj thr = Ok p'"
  shows "\<exists>out' in' out_fresh in_fresh.
           update_status (num_nodes G) p' (color_status_out s1) (adj_t G) old (length p' - 1)
             = Inr out' \<and>
           init_status (num_nodes G) p'
               (ColorStatus_init (num_nodes G) (cs_n (color_status_out s1))) (adj_t G)
             = Inr out_fresh \<and>
           neighbor out' = neighbor out_fresh \<and>
           block (length p') (upper_base out') = block (length p') (upper_base out_fresh) \<and>
           block (length p') (lower_base out') = block (length p') (lower_base out_fresh) \<and>
           block (length p') (errors_base out') = block (length p') (errors_base out_fresh) \<and>
           update_status (num_nodes G) p' (color_status_in s1) (transpose_w (adj_t G)) old
               (length p' - 1)
             = Inr in' \<and>
           init_status (num_nodes G) p'
               (ColorStatus_init (num_nodes G) (cs_n (color_status_in s1)))
               (transpose_w (adj_t G))
             = Inr in_fresh \<and>
           neighbor in' = neighbor in_fresh \<and>
           block (length p') (upper_base in') = block (length p') (upper_base in_fresh) \<and>
           block (length p') (lower_base in') = block (length p') (lower_base in_fresh) \<and>
           block (length p') (errors_base in') = block (length p') (errors_base in_fresh)"
proof -
  from grow_ok [OF reachable_state_ok [OF assms(1)]] assms(2)
  have ok: "state_ok (num_nodes G) (adj_t G) s1"
    and room: "length (qs_p s1) < cs_n (color_status_out s1)"
    by auto
  from ok have pok: "partition_ok (num_nodes G) (qs_p s1)"
    and o: "status_ok (num_nodes G) (adj_t G) (qs_p s1) (color_status_out s1)"
    and i: "status_ok (num_nodes G) (transpose_w (adj_t G)) (qs_p s1) (color_status_in s1)"
    and eq: "cs_n (color_status_out s1) = cs_n (color_status_in s1)"
    by (simp_all add: state_ok_def)
  from room eq have room': "length (qs_p s1) < cs_n (color_status_in s1)" by simp
  from update_agrees_with_init [OF o room pok assms(3)]
    update_agrees_with_init [OF i room' pok assms(3)]
  show ?thesis by blast
qed

theorem update_status_equals_init_status_witness:
  "\<exists>out' in' out_fresh in_fresh.
           update_status (num_nodes G3) [[0, 1], [2]] (color_status_out G3_init) (adj_t G3) 0
               (length [[0, 1], [2::nat]] - 1)
             = Inr out' \<and>
           init_status (num_nodes G3) [[0, 1], [2]]
               (ColorStatus_init (num_nodes G3) (cs_n (color_status_out G3_init))) (adj_t G3)
             = Inr out_fresh \<and>
           neighbor out' = neighbor out_fresh \<and>
           block (length [[0, 1], [2::nat]]) (upper_base out') =
             block (length [[0, 1], [2::nat]]) (upper_base out_fresh) \<and>
           block (length [[0, 1], [2::nat]]) (lower_base out') =
             block (length [[0, 1], [2::nat]]) (lower_base out_fresh) \<and>
           block (length [[0, 1], [2::nat]]) (errors_base out') =
             block (length [[0, 1], [2::nat]]) (errors_base out_fresh) \<and>
           update_status (num_nodes G3) [[0, 1], [2]] (color_status_in G3_init)
               (transpose_w (adj_t G3)) 0 (length [[0, 1], [2::nat]] - 1)
             = Inr in' \<and>
           init_status (num_nodes G3) [[0, 1], [2]]
               (ColorStatus_init (num_nodes G3) (cs_n (color_status_in G3_init)))
               (transpose_w (adj_t G3))
             = Inr in_fresh \<and>
           neighbor in' = neighbor in_fresh \<and>
           block (length [[0, 1], [2::nat]]) (upper_base in') =
             block (length [[0, 1], [2::nat]]) (upper_base in_fresh) \<and>
           block (length [[0, 1], [2::nat]]) (lower_base in') =
             block (length [[0, 1], [2::nat]]) (lower_base in_fresh) \<and>
           block (length [[0, 1], [2::nat]]) (errors_base in') =
             block (length [[0, 1], [2::nat]]) (errors_base in_fresh)"
  by (rule update_status_equals_init_status [OF reachable_G3_init grow_G3 split_color_G3])

text \<open>C2 (amended). In a reachable state, at the head of an iteration: the loop stops
  with the state as it is when the number of colors has reached \<^verbatim>\<open>n_colors\<close>; otherwise
  the buffers grow if they must, both witnesses are picked, and the loop stops when both
  maximum errors compare at or below \<^verbatim>\<open>q_errors\<close>. Otherwise it calls \<^verbatim>\<open>split_color\<close>
  on the witness of the direction whose maximum error is larger (the outgoing one when
  its error is at least the incoming one) with the mean picked for that witness as
  threshold. When neither side of that split is empty, the members above the mean become
  the new color, both statuses are updated with \<open>old = witness_i\<close> and the new index, and
  the loop goes on from that state; when a side is empty the iteration raises the
  assertion error and the loop ends there.\<close>

theorem loop_iteration:
  assumes "reachable G n_colors q_errors s"
  shows "\<exists>s1 oi oj othr e_out ii ij ithr e_in cs i j thr p'.
    grow s = Inr s1 \<and>
    pick_witness (qs_p s1) (color_status_out s1) = Inr (oi, oj, othr, e_out) \<and>
    pick_witness (qs_p s1) (color_status_in s1) = Inr (ii, ij, ithr, e_in) \<and>
    (cs, i, j, thr) =
       (if fl_ge e_out e_in then (color_status_out s1, oi, oj, othr)
        else (color_status_in s1, ii, ij, ithr)) \<and>
    p' = (qs_p s1)[i := retain_side cs j thr (qs_p s1 ! i)] @ [eject_side cs j thr (qs_p s1 ! i)] \<and>
    (\<not> below_cap (qs_p s) n_colors \<longrightarrow>
       q_loop (num_nodes G) (adj_t G) n_colors q_errors s = Some (Ok s)) \<and>
    (below_cap (qs_p s) n_colors \<and> fl_le e_in q_errors \<and> fl_le e_out q_errors \<longrightarrow>
       loop_body (num_nodes G) (adj_t G) q_errors s = Break s1 \<and>
       q_loop (num_nodes G) (adj_t G) n_colors q_errors s = Some (Ok s1)) \<and>
    (below_cap (qs_p s) n_colors \<and> \<not> (fl_le e_in q_errors \<and> fl_le e_out q_errors) \<and>
     retain_side cs j thr (qs_p s1 ! i) \<noteq> [] \<and> eject_side cs j thr (qs_p s1 ! i) \<noteq> [] \<longrightarrow>
       (\<exists>out' in'.
          update_status (num_nodes G) p' (color_status_out s1) (adj_t G) i (length p' - 1)
            = Inr out' \<and>
          update_status (num_nodes G) p' (color_status_in s1) (transpose_w (adj_t G)) i
            (length p' - 1) = Inr in' \<and>
          loop_body (num_nodes G) (adj_t G) q_errors s =
            Continue \<lparr>qs_p = p', color_status_out = out', color_status_in = in'\<rparr> \<and>
          q_loop (num_nodes G) (adj_t G) n_colors q_errors s =
            q_loop (num_nodes G) (adj_t G) n_colors q_errors
              \<lparr>qs_p = p', color_status_out = out', color_status_in = in'\<rparr>)) \<and>
    (below_cap (qs_p s) n_colors \<and> \<not> (fl_le e_in q_errors \<and> fl_le e_out q_errors) \<and>
     (retain_side cs j thr (qs_p s1 ! i) = [] \<or> eject_side cs j thr (qs_p s1 ! i) = []) \<longrightarrow>
       loop_body (num_nodes G) (adj_t G) q_errors s = Raise AssertionError s1 \<and>
       q_loop (num_nodes G) (adj_t G) n_colors q_errors s = Some (Raised AssertionError s1))"
proof -
  define v where "v = num_nodes G"
  define W where "W = adj_t G"
  have ok: "state_ok v W s"
    using reachable_state_ok [OF assms] by (simp add: v_def W_def)
  from grow_ok [OF ok] obtain s1 where g: "grow s = Inr s1" and ok1: "state_ok v W s1" by blast
  from ok1 have pok: "partition_ok v (qs_p s1)"
    and so: "status_ok v W (qs_p s1) (color_status_out s1)"
    and si: "status_ok v (transpose_w W) (qs_p s1) (color_status_in s1)"
    by (simp_all add: state_ok_def)
  from pick_witness_ok [OF so pok] obtain oi oj othr e_out where
    po: "pick_witness (qs_p s1) (color_status_out s1) = Inr (oi, oj, othr, e_out)" by blast
  from pick_witness_ok [OF si pok] obtain ii ij ithr e_in where
    pi: "pick_witness (qs_p s1) (color_status_in s1) = Inr (ii, ij, ithr, e_in)" by blast
  obtain cs i j thr where
    ch: "(cs, i, j, thr) =
           (if fl_less e_out e_in then (color_status_in s1, ii, ij, ithr)
            else (color_status_out s1, oi, oj, othr))"
    by (metis prod_cases4)
  note core = iteration_core [OF ok g po pi ch]
  define R where "R = retain_side cs j thr (qs_p s1 ! i)"
  define E where "E = eject_side cs j thr (qs_p s1 ! i)"
  define p' where "p' = (qs_p s1)[i := R] @ [E]"
  have i: "i < length (qs_p s1)" and j: "j < length (qs_p s1)"
    using core(2,4,5) by simp_all
  from core(6) so si obtain W' where cs: "status_ok v W' (qs_p s1) cs" by blast
  have split: "split_color (qs_p s1) cs i j thr =
                 (if R = [] \<or> E = [] then Raised AssertionError (qs_p s1) else Ok p')"
    unfolding R_def E_def p'_def
    by (rule split_color_sides [OF i witness_in_range [OF cs pok i j]])
  have stop_cap: "q_loop v W n_colors q_errors s = Some (Ok s)"
    if "\<not> below_cap (qs_p s) n_colors"
    using that by (subst q_loop.simps) simp
  have stop_tol: "loop_body v W q_errors s = Break s1 \<and>
                  q_loop v W n_colors q_errors s = Some (Ok s1)"
    if "below_cap (qs_p s) n_colors" "fl_le e_in q_errors" "fl_le e_out q_errors"
  proof -
    have "loop_body v W q_errors s = Break s1" using core(8) that(2,3) by simp
    then show ?thesis using that(1) by (subst q_loop.simps) simp
  qed
  have go_on: "\<exists>out' in'.
          update_status v p' (color_status_out s1) W i (length p' - 1) = Inr out' \<and>
          update_status v p' (color_status_in s1) (transpose_w W) i (length p' - 1) = Inr in' \<and>
          loop_body v W q_errors s =
            Continue \<lparr>qs_p = p', color_status_out = out', color_status_in = in'\<rparr> \<and>
          q_loop v W n_colors q_errors s =
            q_loop v W n_colors q_errors \<lparr>qs_p = p', color_status_out = out', color_status_in = in'\<rparr>"
    if "below_cap (qs_p s) n_colors" "\<not> (fl_le e_in q_errors \<and> fl_le e_out q_errors)"
      "R \<noteq> []" "E \<noteq> []"
  proof -
    have sp: "split_color (qs_p s1) cs i j thr = Ok p'" using split that(3,4) by simp
    from split_and_update_ok [OF ok1 core(3) sp] obtain out' in' where
      u: "update_status v p' (color_status_out s1) W i (length p' - 1) = Inr out'"
        "update_status v p' (color_status_in s1) (transpose_w W) i (length p' - 1) = Inr in'"
        "split_and_update v W s1 cs i j thr =
           Continue \<lparr>qs_p = p', color_status_out = out', color_status_in = in'\<rparr>"
      by blast
    have body: "loop_body v W q_errors s =
                  Continue \<lparr>qs_p = p', color_status_out = out', color_status_in = in'\<rparr>"
      using core(8) that(2) u(3) by auto
    then have "q_loop v W n_colors q_errors s =
            q_loop v W n_colors q_errors \<lparr>qs_p = p', color_status_out = out', color_status_in = in'\<rparr>"
      using that(1) by (subst q_loop.simps) simp
    with u(1,2) body show ?thesis by blast
  qed
  have fail: "loop_body v W q_errors s = Raise AssertionError s1 \<and>
              q_loop v W n_colors q_errors s = Some (Raised AssertionError s1)"
    if "below_cap (qs_p s) n_colors" "\<not> (fl_le e_in q_errors \<and> fl_le e_out q_errors)"
      "R = [] \<or> E = []"
  proof -
    have "split_color (qs_p s1) cs i j thr = Raised AssertionError (qs_p s1)"
      using split that(3) by simp
    then have "split_and_update v W s1 cs i j thr = Raise AssertionError s1"
      by (simp add: split_and_update_def)
    then have "loop_body v W q_errors s = Raise AssertionError s1"
      using core(8) that(2) by auto
    then show ?thesis using that(1) by (subst q_loop.simps) simp
  qed
  have ch': "(cs, i, j, thr) =
           (if fl_ge e_out e_in then (color_status_out s1, oi, oj, othr)
            else (color_status_in s1, ii, ij, ithr))"
    using ch core(9) by (auto split: if_splits)
  show ?thesis
    apply (rule exI [of _ s1], rule exI [of _ oi], rule exI [of _ oj], rule exI [of _ othr],
        rule exI [of _ e_out], rule exI [of _ ii], rule exI [of _ ij], rule exI [of _ ithr],
        rule exI [of _ e_in], rule exI [of _ cs], rule exI [of _ i], rule exI [of _ j],
        rule exI [of _ thr], rule exI [of _ p'])
    using g po pi ch' stop_cap stop_tol go_on fail
    unfolding v_def W_def p'_def R_def E_def
    by (intro conjI impI) (simp_all only: simp_thms)
qed

text \<open>With a negative tolerance on the graph of two nodes without an edge: the cap is not
  reached and the maximum errors (both 0) are above the tolerance, yet the iteration
  neither splits nor updates; it raises the assertion error.\<close>

theorem loop_iteration_counterexample:
  "reachable G2 (Fin 2) (Fin (- 1)) G2_init \<and>
   below_cap (qs_p G2_init) (Fin 2) \<and>
   pick_witness (qs_p G2_init) (color_status_out G2_init) = Inr (0, 0, Fin 0, Fin 0) \<and>
   pick_witness (qs_p G2_init) (color_status_in G2_init) = Inr (0, 0, Fin 0, Fin 0) \<and>
   \<not> fl_le (Fin 0) (Fin (- 1)) \<and>
   loop_body (num_nodes G2) (adj_t G2) (Fin (- 1)) G2_init = Raise AssertionError G2_init \<and>
   q_color G2 False (Fin 2) (Fin (- 1)) =
     Some (Raised AssertionError \<lparr>self_p = [[0, 1]], self_q_error = PInf\<rparr>)"
proof -
  have "reachable G2 (Fin 2) (Fin (- 1)) G2_init"
    by (rule reachable.initial [OF q_init_G2])
  moreover have "below_cap (qs_p G2_init) (Fin 2)" by code_simp
  moreover have "\<not> fl_le (Fin 0) (Fin (- 1))" by (simp add: fl_le_def)
  moreover have "loop_body (num_nodes G2) (adj_t G2) (Fin (- 1)) G2_init =
                   Raise AssertionError G2_init"
    by code_simp
  moreover have "q_color G2 False (Fin 2) (Fin (- 1)) =
     Some (Raised AssertionError \<lparr>self_p = [[0, 1]], self_q_error = PInf\<rparr>)"
    by code_simp
  ultimately show ?thesis using pick_witness_G2 by simp
qed

theorem loop_iteration_witness:
  "\<exists>out' in'. loop_body (num_nodes G3) (adj_t G3) (Fin 0) G3_init =
     Continue \<lparr>qs_p = [[0, 1], [2]], color_status_out = out', color_status_in = in'\<rparr>"
proof -
  from loop_iteration [OF reachable_G3_init] obtain s1 oi oj othr e_out ii ij ithr e_in cs i j thr p'
    where g: "grow G3_init = Inr s1"
      and po: "pick_witness (qs_p s1) (color_status_out s1) = Inr (oi, oj, othr, e_out)"
      and pi: "pick_witness (qs_p s1) (color_status_in s1) = Inr (ii, ij, ithr, e_in)"
      and ch: "(cs, i, j, thr) =
         (if fl_ge e_out e_in then (color_status_out s1, oi, oj, othr)
          else (color_status_in s1, ii, ij, ithr))"
      and p': "p' = (qs_p s1)[i := retain_side cs j thr (qs_p s1 ! i)] @
                      [eject_side cs j thr (qs_p s1 ! i)]"
      and go: "below_cap (qs_p G3_init) (Fin 2) \<and>
               \<not> (fl_le e_in (Fin 0) \<and> fl_le e_out (Fin 0)) \<and>
               retain_side cs j thr (qs_p s1 ! i) \<noteq> [] \<and>
               eject_side cs j thr (qs_p s1 ! i) \<noteq> [] \<longrightarrow>
               (\<exists>out' in'.
                  update_status (num_nodes G3) p' (color_status_out s1) (adj_t G3) i
                    (length p' - 1) = Inr out' \<and>
                  update_status (num_nodes G3) p' (color_status_in s1) (transpose_w (adj_t G3)) i
                    (length p' - 1) = Inr in' \<and>
                  loop_body (num_nodes G3) (adj_t G3) (Fin 0) G3_init =
                    Continue \<lparr>qs_p = p', color_status_out = out', color_status_in = in'\<rparr> \<and>
                  q_loop (num_nodes G3) (adj_t G3) (Fin 2) (Fin 0) G3_init =
                    q_loop (num_nodes G3) (adj_t G3) (Fin 2) (Fin 0)
                      \<lparr>qs_p = p', color_status_out = out', color_status_in = in'\<rparr>)"
    by blast
  have s1: "s1 = G3_init" using g by (simp add: grow_G3)
  have w: "oi = 0" "oj = 0" "othr = Fin 11" "e_out = Fin 3" "e_in = Fin 3"
    using po pi by (simp_all add: s1 pick_witness_G3_init)
  have c: "cs = color_status_out G3_init" "i = 0" "j = 0" "thr = Fin 11"
    using ch by (simp_all add: w s1 fl_ge_def fl_le_def)
  have "p' = [[0, 1], [2]]"
    using p' by (simp add: c s1 sides_G3_init) (simp add: G3_init_def)
  moreover have "\<not> (fl_le e_in (Fin 0) \<and> fl_le e_out (Fin 0))"
    by (simp add: w fl_le_def)
  ultimately show ?thesis
    using go below_cap_G3 by (auto simp: c s1 sides_G3_init)
qed

text \<open>C3 (amended). For a graph with at least one node, the partition is one in every
  reachable state: the colors are non-empty, pairwise disjoint, and their union is the
  set of the \<open>v\<close> nodes. This holds of the initial single color and is preserved by
  every successful \<^verbatim>\<open>split_color\<close>.\<close>

theorem partition_invariant:
  assumes "0 < v"
  shows "is_partition v (initial_p v) \<and>
         (\<forall>p cs wi wj thr p'.
            is_partition v p \<and> split_color p cs wi wj thr = Ok p' \<longrightarrow> is_partition v p') \<and>
         (\<forall>G n_colors q_errors s.
            num_nodes G = v \<and> reachable G n_colors q_errors s \<longrightarrow> is_partition v (qs_p s))"
proof (intro conjI allI impI)
  show "is_partition v (initial_p v)"
    by (rule partition_ok_is_partition [OF partition_ok_initial [OF assms]])
next
  fix p cs wi wj thr p'
  assume h: "is_partition v p \<and> split_color p cs wi wj thr = Ok p'"
  then have "partition_ok v p" using assms by (simp add: is_partition_partition_ok)
  with h show "is_partition v p'"
    by (blast intro: partition_ok_is_partition split_color_partition_ok)
next
  fix G n_colors q_errors s
  assume "num_nodes G = v \<and> reachable G n_colors q_errors s"
  then show "is_partition v (qs_p s)"
    using reachable_state_ok [of G n_colors q_errors s]
    by (auto simp: state_ok_def intro: partition_ok_is_partition)
qed

text \<open>With no node the constructor makes one empty color.\<close>

theorem partition_invariant_counterexample:
  "\<not> is_partition 0 (initial_p 0)"
  by (simp add: is_partition_def initial_p_def)

theorem partition_invariant_witness:
  "is_partition 3 (initial_p 3) \<and> is_partition 3 (qs_p G3_split)"
proof -
  have v: "(0::nat) < 3" by simp
  have "num_nodes G3 = 3" by (simp add: G3_def)
  then show ?thesis
    using partition_invariant [OF v] reachable_G3_split by blast
qed

text \<open>C4 (amended). When an iteration splits on the witness pair \<open>(i, j)\<close> of the chosen
  direction and \<open>j \<noteq> i\<close>, the error of \<open>(i, j)\<close> in that direction's status after the
  update (row \<open>i\<close> is the retained color) does not exceed its value before the split.\<close>

theorem acted_pair_error_not_increased:
  assumes "reachable G n_colors q_errors s" and "grow s = Inr s1"
    and "pick_witness (qs_p s1) (color_status_out s1) = Inr (oi, oj, othr, e_out)"
    and "pick_witness (qs_p s1) (color_status_in s1) = Inr (ii, ij, ithr, e_in)"
    and "loop_body (num_nodes G) (adj_t G) q_errors s = Continue s'"
    and "(cs, cs', i, j) =
           (if fl_less e_out e_in then (color_status_in s1, color_status_in s', ii, ij)
            else (color_status_out s1, color_status_out s', oi, oj))"
    and "i \<noteq> j"
  shows "fl_le (errors_base cs' ! i ! j) (errors_base cs ! i ! j)"
proof -
  define v where "v = num_nodes G"
  define W where "W = adj_t G"
  have ok: "state_ok v W s"
    using reachable_state_ok [OF assms(1)] by (simp add: v_def W_def)
  obtain thr where
    ch: "(cs, i, j, thr) =
           (if fl_less e_out e_in then (color_status_in s1, ii, ij, ithr)
            else (color_status_out s1, oi, oj, othr))"
    using assms(6) by (auto split: if_splits)
  note core = iteration_core [OF ok assms(2,3,4) ch]
  have body: "split_and_update v W s1 cs i j thr = Continue s'"
    using core(8) [of q_errors] assms(5) by (auto simp: v_def W_def split: if_splits)
  then obtain p' where sp: "split_color (qs_p s1) cs i j thr = Ok p'"
    by (auto simp: split_and_update_def split: outcome.splits)
  from split_and_update_ok [OF core(1,3) sp] body obtain out' in' where
    s': "s' = \<lparr>qs_p = p', color_status_out = out', color_status_in = in'\<rparr>"
    and ok': "state_ok v W s'"
    by auto
  from split_color_Ok [OF sp] obtain R E where R: "R \<noteq> []" "set R \<subseteq> set (qs_p s1 ! i)"
    and p': "p' = (qs_p s1)[i := R] @ [E]"
    by auto
  have ij: "i < length (qs_p s1)" "j < length (qs_p s1)" using core(2,4,5) by simp_all
  have pok': "partition_ok v p'" using ok' by (simp add: state_ok_def s')
  show ?thesis
  proof (cases "fl_less e_out e_in")
    case True
    then have c: "cs = color_status_in s1" "cs' = in'" using assms(6) by (simp_all add: s')
    have "status_ok v (transpose_w W) (qs_p s1) cs" "status_ok v (transpose_w W) p' cs'"
      using core(1) ok' by (simp_all add: state_ok_def c s')
    from error_after_split [OF this pok' p' R ij assms(7)] show ?thesis .
  next
    case False
    then have c: "cs = color_status_out s1" "cs' = out'" using assms(6) by (simp_all add: s')
    have "status_ok v W (qs_p s1) cs" "status_ok v W p' cs'"
      using core(1) ok' by (simp_all add: state_ok_def c s')
    from error_after_split [OF this pok' p' R ij assms(7)] show ?thesis .
  qed
qed

text \<open>On the graph of three nodes the first iteration splits on the outgoing witness
  \<open>(0, 0)\<close>, whose error is 3 before the split and 10 after the update.\<close>

theorem acted_pair_error_not_increased_counterexample:
  "reachable G3 (Fin 2) (Fin 0) G3_init \<and>
   grow G3_init = Inr G3_init \<and>
   pick_witness (qs_p G3_init) (color_status_out G3_init) = Inr (0, 0, Fin 11, Fin 3) \<and>
   pick_witness (qs_p G3_init) (color_status_in G3_init) = Inr (0, 0, Fin 11, Fin 3) \<and>
   loop_body (num_nodes G3) (adj_t G3) (Fin 0) G3_init = Continue G3_split \<and>
   errors_base (color_status_out G3_init) ! 0 ! 0 = Fin 3 \<and>
   errors_base (color_status_out G3_split) ! 0 ! 0 = Fin 10 \<and>
   \<not> fl_le (errors_base (color_status_out G3_split) ! 0 ! 0)
            (errors_base (color_status_out G3_init) ! 0 ! 0)"
  using reachable_G3_init grow_G3 pick_witness_G3_init loop_body_G3
  by (simp add: G3_init_def G3_split_def fl_le_def)

theorem acted_pair_error_not_increased_witness:
  "fl_le (errors_base (color_status_in G3_wide_next) ! 0 ! 1)
         (errors_base (color_status_in G3_wide_split) ! 0 ! 1)"
proof -
  have ch: "(color_status_in G3_wide_split, color_status_in G3_wide_next, 0::nat, 1::nat) =
           (if fl_less (Fin 10) (Fin 13)
            then (color_status_in G3_wide_split, color_status_in G3_wide_next, 0, 1)
            else (color_status_out G3_wide_split, color_status_out G3_wide_next, 0, 0))"
    by simp
  have ne: "(0::nat) \<noteq> 1" by simp
  show ?thesis
    by (rule acted_pair_error_not_increased [OF reachable_G3_wide_split grow_G3_wide
          pick_witness_G3_wide loop_body_G3_wide(2) ch ne])
qed

text \<open>C5. With the witness in range, \<^verbatim>\<open>split_color\<close> raises the assertion error exactly
  when the retain side or the eject side is empty. Whenever it raises, \<^verbatim>\<open>self.p\<close> is
  unchanged, and the loop's split-and-update step that ends with the assertion error
  leaves the partition and both statuses as they were. When neither side is empty the
  retain side replaces color \<open>witness_i\<close> and the eject side is appended at the old
  length, so there is exactly one more color.\<close>

theorem split_color_outcome:
  assumes "witness_i < length p"
    and "list_all (\<lambda>x. x < length (neighbor cs) \<and> witness_j < length (neighbor cs ! x))
           (p ! witness_i)"
  shows "((split_color p cs witness_i witness_j threshold = Raised AssertionError p) =
            (retain_side cs witness_j threshold (p ! witness_i) = [] \<or>
             eject_side cs witness_j threshold (p ! witness_i) = [])) \<and>
         (\<forall>e p'. split_color p cs witness_i witness_j threshold = Raised e p' \<longrightarrow> p' = p) \<and>
         (\<forall>v W s s'. qs_p s = p \<and>
             split_and_update v W s cs witness_i witness_j threshold = Raise AssertionError s'
             \<longrightarrow> s' = s) \<and>
         (retain_side cs witness_j threshold (p ! witness_i) \<noteq> [] \<and>
          eject_side cs witness_j threshold (p ! witness_i) \<noteq> [] \<longrightarrow>
            split_color p cs witness_i witness_j threshold =
              Ok (p[witness_i := retain_side cs witness_j threshold (p ! witness_i)] @
                  [eject_side cs witness_j threshold (p ! witness_i)])) \<and>
         (p[witness_i := retain_side cs witness_j threshold (p ! witness_i)] @
            [eject_side cs witness_j threshold (p ! witness_i)]) ! witness_i =
            retain_side cs witness_j threshold (p ! witness_i) \<and>
         (p[witness_i := retain_side cs witness_j threshold (p ! witness_i)] @
            [eject_side cs witness_j threshold (p ! witness_i)]) ! length p =
            eject_side cs witness_j threshold (p ! witness_i) \<and>
         length (p[witness_i := retain_side cs witness_j threshold (p ! witness_i)] @
            [eject_side cs witness_j threshold (p ! witness_i)]) = length p + 1"
proof -
  note r = split_color_sides [OF assms, of threshold]
  have "(split_color p cs witness_i witness_j threshold = Raised AssertionError p) =
            (retain_side cs witness_j threshold (p ! witness_i) = [] \<or>
             eject_side cs witness_j threshold (p ! witness_i) = [])"
    by (simp add: r)
  moreover have "\<forall>e p'. split_color p cs witness_i witness_j threshold = Raised e p' \<longrightarrow> p' = p"
    by (blast dest: split_color_Raised)
  moreover have "\<forall>v W s s'. qs_p s = p \<and>
             split_and_update v W s cs witness_i witness_j threshold = Raise AssertionError s'
             \<longrightarrow> s' = s"
    by (blast dest: split_and_update_AssertionError)
  moreover have "retain_side cs witness_j threshold (p ! witness_i) \<noteq> [] \<and>
          eject_side cs witness_j threshold (p ! witness_i) \<noteq> [] \<longrightarrow>
            split_color p cs witness_i witness_j threshold =
              Ok (p[witness_i := retain_side cs witness_j threshold (p ! witness_i)] @
                  [eject_side cs witness_j threshold (p ! witness_i)])"
    by (simp add: r)
  ultimately show ?thesis using assms(1) by (simp add: nth_append)
qed

theorem split_color_outcome_witness:
  "split_color (qs_p G3_init) (color_status_out G3_init) 0 0 (Fin 13) =
     Raised AssertionError (qs_p G3_init) \<and>
   split_color (qs_p G3_init) (color_status_out G3_init) 0 0 (Fin 11) = Ok [[0, 1], [2]]"
proof -
  have a: "0 < length (qs_p G3_init)" by (simp add: G3_init_def)
  have b: "list_all (\<lambda>x. x < length (neighbor (color_status_out G3_init)) \<and>
                         0 < length (neighbor (color_status_out G3_init) ! x))
             (qs_p G3_init ! 0)"
    by (simp add: G3_init_def)
  show ?thesis
    using split_color_outcome [OF a b, of "Fin 13"] split_color_outcome [OF a b, of "Fin 11"]
    by (simp add: G3_init_def retain_side_def eject_side_def)
qed



text \<open>C7. When the initialisation fails, \<^verbatim>\<open>q_color\<close> raises with the initial partition in
  place. When it succeeds and both directions' maximum error is at or below
  \<^verbatim>\<open>q_errors\<close>, or \<^verbatim>\<open>n_colors\<close> is at most 1, the loop ends at its first test or its
  first break without a split (the state it ends in is the initial one, or the initial
  one with its buffers grown), and \<^verbatim>\<open>q_color\<close> returns the initial single color with
  the larger of the two errors as \<^verbatim>\<open>q_error\<close>.\<close>

theorem q_color_zero_splits:
  "(\<forall>e. q_init G n_colors = Inl e \<longrightarrow>
      q_color G weighting n_colors q_errors =
        Some (Raised e \<lparr>self_p = initial_p (num_nodes G), self_q_error = PInf\<rparr>)) \<and>
   (\<forall>s0 oi oj othr e_out ii ij ithr e_in.
      q_init G n_colors = Inr s0 \<and>
      pick_witness (qs_p s0) (color_status_out s0) = Inr (oi, oj, othr, e_out) \<and>
      pick_witness (qs_p s0) (color_status_in s0) = Inr (ii, ij, ithr, e_in) \<and>
      ((fl_le e_in q_errors \<and> fl_le e_out q_errors) \<or> fl_le n_colors (Fin 1)) \<longrightarrow>
      (\<exists>s1. q_loop (num_nodes G) (adj_t G) n_colors q_errors s0 = Some (Ok s1) \<and>
            (s1 = s0 \<or> grow s0 = Inr s1) \<and> qs_p s1 = initial_p (num_nodes G)) \<and>
      q_color G weighting n_colors q_errors =
        Some (Ok \<lparr>self_p = initial_p (num_nodes G), self_q_error = py_max e_out e_in\<rparr>))"
proof (intro conjI allI impI)
  fix e assume "q_init G n_colors = Inl e"
  then show "q_color G weighting n_colors q_errors =
        Some (Raised e \<lparr>self_p = initial_p (num_nodes G), self_q_error = PInf\<rparr>)"
    by (simp add: q_color_def)
next
  fix s0 oi oj othr e_out ii ij ithr e_in
  assume h: "q_init G n_colors = Inr s0 \<and>
      pick_witness (qs_p s0) (color_status_out s0) = Inr (oi, oj, othr, e_out) \<and>
      pick_witness (qs_p s0) (color_status_in s0) = Inr (ii, ij, ithr, e_in) \<and>
      ((fl_le e_in q_errors \<and> fl_le e_out q_errors) \<or> fl_le n_colors (Fin 1))"
  define v where "v = num_nodes G"
  define W where "W = adj_t G"
  from h have init: "q_init G n_colors = Inr s0"
    and po: "pick_witness (qs_p s0) (color_status_out s0) = Inr (oi, oj, othr, e_out)"
    and pi: "pick_witness (qs_p s0) (color_status_in s0) = Inr (ii, ij, ithr, e_in)"
    and stop: "(fl_le e_in q_errors \<and> fl_le e_out q_errors) \<or> fl_le n_colors (Fin 1)"
    by simp_all
  from q_init_ok [OF init] have ok: "state_ok v W s0" and p0: "qs_p s0 = initial_p v"
    by (simp_all add: v_def W_def)
  have main: "\<exists>s1. q_loop v W n_colors q_errors s0 = Some (Ok s1) \<and>
            (s1 = s0 \<or> grow s0 = Inr s1) \<and> qs_p s1 = initial_p v \<and>
            q_finish s1 = Ok \<lparr>self_p = initial_p v, self_q_error = py_max e_out e_in\<rparr>"
  proof (cases "below_cap (qs_p s0) n_colors")
    case False
    then have "q_loop v W n_colors q_errors s0 = Some (Ok s0)"
      by (subst q_loop.simps) simp
    moreover have "q_finish s0 = Ok \<lparr>self_p = initial_p v, self_q_error = py_max e_out e_in\<rparr>"
      using po pi by (simp add: q_finish_def p0)
    ultimately show ?thesis using p0 by simp
  next
    case True
    then have "\<not> fl_le n_colors (Fin 1)"
      using fl_le_not_less [of n_colors "Fin 1"]
      by (auto simp: below_cap_def p0 initial_p_def)
    with stop have le: "fl_le e_in q_errors" "fl_le e_out q_errors" by simp_all
    from loop_body_cases [OF ok, of q_errors] obtain s1 oi' oj' ii' ij' where
      s1: "grow s0 = Inr s1" "state_ok v W s1" "qs_p s1 = qs_p s0"
      and po1: "pick_witness (qs_p s1) (color_status_out s1) =
             Inr (oi', oj', mean (map (\<lambda>x. neighbor (color_status_out s1) ! x ! oj') (qs_p s0 ! oi')),
                  Fin (spread (neighbor (color_status_out s1)) (qs_p s0 ! oi') oj'))"
      and pi1: "pick_witness (qs_p s1) (color_status_in s1) =
             Inr (ii', ij', mean (map (\<lambda>x. neighbor (color_status_in s1) ! x ! ij') (qs_p s0 ! ii')),
                  Fin (spread (neighbor (color_status_in s1)) (qs_p s0 ! ii') ij'))"
      and body: "loop_body v W q_errors s0 =
             (if fl_le (Fin (spread (neighbor (color_status_in s1)) (qs_p s0 ! ii') ij')) q_errors \<and>
                 fl_le (Fin (spread (neighbor (color_status_out s1)) (qs_p s0 ! oi') oj')) q_errors
              then Break s1
              else if spread (neighbor (color_status_in s1)) (qs_p s0 ! ii') ij'
                      \<le> spread (neighbor (color_status_out s1)) (qs_p s0 ! oi') oj'
              then split_and_update v W s1 (color_status_out s1) oi' oj'
                     (mean (map (\<lambda>x. neighbor (color_status_out s1) ! x ! oj') (qs_p s0 ! oi')))
              else split_and_update v W s1 (color_status_in s1) ii' ij'
                     (mean (map (\<lambda>x. neighbor (color_status_in s1) ! x ! ij') (qs_p s0 ! ii'))))"
      by blast
    from ok s1(2) have pok: "partition_ok v (qs_p s0)"
      and so: "pick_witness (qs_p s0) (color_status_out s1) =
               pick_witness (qs_p s0) (color_status_out s0)"
      and si: "pick_witness (qs_p s0) (color_status_in s1) =
               pick_witness (qs_p s0) (color_status_in s0)"
      by (auto simp: state_ok_def s1(3) intro: pick_witness_same)
    from po1 so po have eo: "Fin (spread (neighbor (color_status_out s1)) (qs_p s0 ! oi') oj') = e_out"
      by (simp add: s1(3))
    from pi1 si pi have ei: "Fin (spread (neighbor (color_status_in s1)) (qs_p s0 ! ii') ij') = e_in"
      by (simp add: s1(3))
    have "loop_body v W q_errors s0 = Break s1"
      using body le by (simp add: eo ei)
    then have "q_loop v W n_colors q_errors s0 = Some (Ok s1)"
      using True by (subst q_loop.simps) simp
    moreover have "q_finish s1 = Ok \<lparr>self_p = initial_p v, self_q_error = py_max e_out e_in\<rparr>"
      using po pi so si by (simp add: q_finish_def s1(3) p0 [symmetric])
    ultimately show ?thesis using s1(1,3) p0 by simp
  qed
  then show "\<exists>s1. q_loop (num_nodes G) (adj_t G) n_colors q_errors s0 = Some (Ok s1) \<and>
            (s1 = s0 \<or> grow s0 = Inr s1) \<and> qs_p s1 = initial_p (num_nodes G)"
    by (auto simp: v_def W_def)
  from main show "q_color G weighting n_colors q_errors =
        Some (Ok \<lparr>self_p = initial_p (num_nodes G), self_q_error = py_max e_out e_in\<rparr>)"
    using init by (auto simp: q_color_def v_def W_def)
qed

theorem q_color_zero_splits_witness:
  "q_color G2 False (Fin 2) (Fin 0) =
     Some (Ok \<lparr>self_p = initial_p (num_nodes G2), self_q_error = py_max (Fin 0) (Fin 0)\<rparr>)"
proof -
  have "fl_le (Fin 0) (Fin 0)" by (simp add: fl_le_def)
  then show ?thesis
    using q_color_zero_splits [of G2 "Fin 2" False "Fin 0"] q_init_G2 pick_witness_G2
    by blast
qed




text \<open>C10. The flag \<^verbatim>\<open>weighting\<close> has no influence on the result of \<^verbatim>\<open>q_color\<close>.\<close>

theorem q_color_ignores_weighting:
  "q_color G True n_colors q_errors = q_color G False n_colors q_errors"
  by (simp add: q_color_def)

theorem q_color_ignores_weighting_witness:
  "q_color G3 True (Fin 2) (Fin 0) = q_color G3 False (Fin 2) (Fin 0)"
  by (rule q_color_ignores_weighting)

end
